theory Spec2Isabelle
  imports Complex_Main "HOL-Library.AList" "HOL-Library.Sublist"
begin

section \<open>Data model\<close>

text \<open>
  The program keeps a JSON document with three lists, \<^verbatim>\<open>users\<close>, \<^verbatim>\<open>tweets\<close> and
  \<^verbatim>\<open>errors\<close>. Ids are strings. A key that may be missing from a dictionary is an
  \<open>option\<close> field; a Python exception is a value of \<open>exn\<close>, and a function that can
  raise returns \<open>exn + 'a\<close> with \<open>Inl\<close> for the exception.
\<close>

datatype exn =
    KeyboardInterrupt
  | HTTPError nat
  | RuntimeError
  | KeyError string
  | TypeError
  | IndexError
  | ValueError
  | AttributeError
  | FileExistsError
  | ClientError string

text \<open>An entry of a tweet's \<^verbatim>\<open>referenced_tweets\<close>: \<^verbatim>\<open>{"type": ..., "id": ...}\<close>.\<close>

record tweet_ref =
  ref_type :: string
  ref_id :: string

record tweet =
  tweet_id :: string
  author_id :: string
  conversation_id :: string
  referenced_tweets :: "tweet_ref list option"
  scraped_refs :: "string list option"

text \<open>An entry of \<^verbatim>\<open>errors\<close>, as the lookup API returns it.\<close>

record api_error =
  resource_id :: string
  err_value :: string
  err_title :: string
  err_detail :: string

text \<open>A user; \<^verbatim>\<open>username\<close> is \<^verbatim>\<open>None\<close> in the records \<^verbatim>\<open>get_user_info\<close> makes from errors.\<close>

record user =
  user_id :: string
  user_name :: string
  user_description :: string
  username :: "string option"

record db =
  db_users :: "user list option"
  db_tweets :: "tweet list option"
  db_errors :: "api_error list option"

text \<open>\<^verbatim>\<open>read_db\<close> returns \<^verbatim>\<open>{}\<close> when the file does not exist.\<close>

definition empty_db :: db where
  "empty_db = \<lparr>db_users = None, db_tweets = None, db_errors = None\<rparr>"

text \<open>\<^verbatim>\<open>data.get(key, ())\<close> and \<^verbatim>\<open>data.setdefault(key, [])\<close> both read a missing list as empty.\<close>

definition get_list :: "'a list option \<Rightarrow> 'a list" where
  "get_list v = (case v of None \<Rightarrow> [] | Some xs \<Rightarrow> xs)"

section \<open>The outside world\<close>

text \<open>
  Every call that leaves the process is answered by the environment. The environment sees
  the history of the run so far (the trace of events), so that its answers may depend on
  anything that happened before; the clock is read by the number of the reading.
  The trace records the calls in the order the program makes them.
\<close>

record users_response =
  ur_data :: "user list option"
  ur_errors :: "api_error list option"

record tweets_response =
  tr_data :: "tweet list"
  tr_errors :: "api_error list"

datatype users_request = ByUsernames "string list" | ByIds "string list"

text \<open>
  The response of the scrape endpoint, as far as the program reads it: the status code,
  the \<^verbatim>\<open>x-rate-limit-reset\<close> header, and the body.
\<close>

datatype json =
    JNull
  | JBool bool
  | JNum int
  | JStr string
  | JArr "json list"
  | JObj "(string \<times> json) list"

datatype reset_header =
    NoHeader
  | NotAFloat
  | ResetAt real

record http_response =
  status_code :: nat
  x_rate_limit_reset :: reset_header
  body :: "json option"

datatype event =
    EvGetUsers users_request
  | EvGetTweets "string list" "exn + tweets_response"
  | EvGuest
  | EvScrape string
  | EvSend string string
  | EvSleep real
  | EvWriteFn
  | EvWriteDb db

record env =
  e_get_users :: "event list \<Rightarrow> users_request \<Rightarrow> exn + users_response"
  e_get_tweets :: "event list \<Rightarrow> string list \<Rightarrow> exn + tweets_response"
  e_guest :: "event list \<Rightarrow> exn + string"
  e_send :: "event list \<Rightarrow> string \<Rightarrow> string \<Rightarrow> exn + http_response"
  e_sleep :: "event list \<Rightarrow> exn option"
  e_time :: "nat \<Rightarrow> real"

text \<open>
  The state outside the database: the trace, how often the clock was read, and the
  variable \<^verbatim>\<open>last\<close> of the generator \<^verbatim>\<open>write_gen\<close> (\<open>None\<close> before its first step).
\<close>

record world =
  trace :: "event list"
  clock_reads :: nat
  gen_last :: "real option"

definition world0 :: world where
  "world0 = \<lparr>trace = [], clock_reads = 0, gen_last = None\<rparr>"

definition log_event :: "event \<Rightarrow> world \<Rightarrow> world" where
  "log_event ev w = w\<lparr>trace := trace w @ [ev]\<rparr>"

text \<open>\<^verbatim>\<open>time.time()\<close>.\<close>

definition time_time :: "env \<Rightarrow> world \<Rightarrow> real \<times> world" where
  "time_time en w = (e_time en (clock_reads w), w\<lparr>clock_reads := Suc (clock_reads w)\<rparr>)"

text \<open>\<^verbatim>\<open>client.get_users(...)\<close>.\<close>

definition client_get_users ::
  "env \<Rightarrow> users_request \<Rightarrow> world \<Rightarrow> (exn + users_response) \<times> world" where
  "client_get_users en req w = (e_get_users en (trace w) req, log_event (EvGetUsers req) w)"

text \<open>\<^verbatim>\<open>client.get_tweets(ids, **TWEET_PARAMS)\<close>.\<close>

definition client_get_tweets ::
  "env \<Rightarrow> string list \<Rightarrow> world \<Rightarrow> (exn + tweets_response) \<times> world" where
  "client_get_tweets en ids w =
     (e_get_tweets en (trace w) ids, log_event (EvGetTweets ids (e_get_tweets en (trace w) ids)) w)"

section \<open>Python helpers\<close>

text \<open>\<^verbatim>\<open>str.isdigit\<close> on ASCII text: not empty, and every character a digit.\<close>

definition isdigit :: "string \<Rightarrow> bool" where
  "isdigit s = (s \<noteq> [] \<and> list_all (\<lambda>c. List.member ''0123456789'' c) s)"

text \<open>\<^verbatim>\<open>range(0, len(xs), 100)\<close> with \<^verbatim>\<open>xs[chunk:chunk+100]\<close>: the list cut into slices of 100.\<close>

function chunks100 :: "'a list \<Rightarrow> 'a list list" where
  "chunks100 xs = (if xs = [] then [] else take 100 xs # chunks100 (drop 100 xs))"
  by pat_completeness auto
termination
  by (relation "measure length") auto

declare chunks100.simps [simp del]

section \<open>Resolving user names: \<^verbatim>\<open>get_user_ids\<close>\<close>

text \<open>
  The inner \<^verbatim>\<open>for db_item in user_db ... else\<close> of \<^verbatim>\<open>get_user_ids\<close>: \<open>Some id\<close> at the
  \<^verbatim>\<open>break\<close>, \<open>None\<close> when the loop runs out. \<^verbatim>\<open>db_item["username"].casefold()\<close> raises
  \<^verbatim>\<open>AttributeError\<close> on a username that is \<^verbatim>\<open>None\<close>. \<open>cf\<close> stands for \<^verbatim>\<open>str.casefold\<close>.
\<close>

fun find_user :: "(string \<Rightarrow> string) \<Rightarrow> string \<Rightarrow> user list \<Rightarrow> exn + string option" where
  "find_user cf name_cf [] = Inr None"
| "find_user cf name_cf (db_item # rest) =
     (case username db_item of
        None \<Rightarrow> Inl AttributeError
      | Some un \<Rightarrow>
          if cf un = name_cf then Inr (Some (user_id db_item))
          else find_user cf name_cf rest)"

text \<open>
  The loop \<^verbatim>\<open>for name in names\<close>. \<open>result\<close> holds \<open>None\<close> where an id is still to be looked
  up, and \<open>need\<close> is the dictionary from folded name to the position in \<open>result\<close>.
\<close>

fun resolve_names ::
  "(string \<Rightarrow> string) \<Rightarrow> user list \<Rightarrow> string list \<Rightarrow> string option list \<Rightarrow> (string \<times> nat) list
    \<Rightarrow> exn + (string option list \<times> (string \<times> nat) list)" where
  "resolve_names cf user_db [] result need = Inr (result, need)"
| "resolve_names cf user_db (name # names) result need =
     (if isdigit name then resolve_names cf user_db names (result @ [Some name]) need
      else
        (case name of
           [] \<Rightarrow> Inl IndexError
         | c # cs \<Rightarrow>
             (let name' = (if c = CHR ''@'' then cs else name);
                  name_cf = cf name'
              in case find_user cf name_cf user_db of
                   Inl e \<Rightarrow> Inl e
                 | Inr (Some uid) \<Rightarrow> resolve_names cf user_db names (result @ [Some uid]) need
                 | Inr None \<Rightarrow>
                     resolve_names cf user_db names (result @ [None])
                       (AList.update (cf name') (length result) need))))"

text \<open>The loop \<^verbatim>\<open>for blob in got["data"]\<close>; it returns the grown \<open>user_db\<close> as well.\<close>

fun store_looked_up ::
  "(string \<Rightarrow> string) \<Rightarrow> user list \<Rightarrow> user list \<Rightarrow> string option list \<Rightarrow> (string \<times> nat) list
    \<Rightarrow> (exn + string option list) \<times> user list" where
  "store_looked_up cf [] user_db result need = (Inr result, user_db)"
| "store_looked_up cf (blob # blobs) user_db result need =
     (case username blob of
        None \<Rightarrow> (Inl AttributeError, user_db @ [blob])
      | Some un \<Rightarrow>
          (case map_of need (cf un) of
             None \<Rightarrow> (Inl (KeyError (cf un)), user_db @ [blob])
           | Some i \<Rightarrow>
               if i < length result
               then store_looked_up cf blobs (user_db @ [blob]) (result[i := Some (user_id blob)]) need
               else (Inl IndexError, user_db @ [blob])))"

definition get_user_ids ::
  "(string \<Rightarrow> string) \<Rightarrow> env \<Rightarrow> user list \<Rightarrow> string list option \<Rightarrow> world
    \<Rightarrow> ((exn + string option list) \<times> user list) \<times> world" where
  "get_user_ids cf en user_db names w =
     (if get_list names = [] then ((Inr [], user_db), w)
      else
        (case resolve_names cf user_db (get_list names) [] [] of
           Inl e \<Rightarrow> ((Inl e, user_db), w)
         | Inr (result, need) \<Rightarrow>
             if need = [] then ((Inr result, user_db), w)
             else
               (case client_get_users en (ByUsernames (map fst need)) w of
                  (Inl e, w') \<Rightarrow> ((Inl e, user_db), w')
                | (Inr got, w') \<Rightarrow>
                    if ur_errors got \<noteq> None then ((Inl RuntimeError, user_db), w')
                    else
                      (case ur_data got of
                         None \<Rightarrow> ((Inl (KeyError ''data''), user_db), w')
                       | Some blobs \<Rightarrow> (store_looked_up cf blobs user_db result need, w')))))"

section \<open>Looking up unknown authors: \<^verbatim>\<open>get_user_info\<close>\<close>

text \<open>The user record made from one entry of the response's \<^verbatim>\<open>errors\<close>.\<close>

definition error_user :: "api_error \<Rightarrow> user" where
  "error_user blob =
     \<lparr>user_id = err_value blob, user_name = err_title blob,
      user_description = err_detail blob, username = None\<rparr>"

text \<open>
  The loop over the chunks of \<open>to_fetch\<close>. The users made from the errors are appended
  before \<^verbatim>\<open>got["data"]\<close> is read, which raises \<^verbatim>\<open>KeyError\<close> when the key is missing.
\<close>

fun fetch_user_chunks ::
  "env \<Rightarrow> string list list \<Rightarrow> user list \<Rightarrow> world \<Rightarrow> (exn + unit) \<times> user list \<times> world" where
  "fetch_user_chunks en [] users w = (Inr (), users, w)"
| "fetch_user_chunks en (batch # batches) users w =
     (case client_get_users en (ByIds batch) w of
        (Inl e, w') \<Rightarrow> (Inl e, users, w')
      | (Inr got, w') \<Rightarrow>
          (let users' = users @ map error_user (get_list (ur_errors got))
           in case ur_data got of
                None \<Rightarrow> (Inl (KeyError ''data''), users', w')
              | Some blobs \<Rightarrow> fetch_user_chunks en batches (users' @ blobs) w'))"

text \<open>
  \<^verbatim>\<open>list(seen.difference(known))\<close>: Python leaves the order of a set open; the model takes
  the ids in the order of the tweets.
\<close>

definition get_user_info :: "env \<Rightarrow> db \<Rightarrow> world \<Rightarrow> (exn + unit) \<times> db \<times> world" where
  "get_user_info en data w =
     (case db_users data of
        None \<Rightarrow> (Inl (KeyError ''users''), data, w)
      | Some users \<Rightarrow>
          (case db_tweets data of
             None \<Rightarrow> (Inl (KeyError ''tweets''), data, w)
           | Some tweets \<Rightarrow>
               (let known = set (map user_id users);
                    to_fetch = remdups (filter (\<lambda>a. a \<notin> known) (map author_id tweets))
                in case fetch_user_chunks en (chunks100 to_fetch) users w of
                     (r, users', w') \<Rightarrow> (r, data\<lparr>db_users := Some users'\<rparr>, w'))))"


section \<open>Fetching tweets by id: \<^verbatim>\<open>get_known\<close>, \<^verbatim>\<open>fetch_tweets_by_id\<close>\<close>

definition get_known :: "db \<Rightarrow> string set" where
  "get_known data =
     set (map tweet_id (get_list (db_tweets data)))
     \<union> set (map resource_id (get_list (db_errors data)))
     \<union> {''couldnt_scrape'', ''tweet_was_deleted''}"

text \<open>
  \<^verbatim>\<open>set(tweet_ids).difference(get_known(data))\<close> is handed to \<^verbatim>\<open>client.get_tweets\<close> whole, in
  one call. The list is some enumeration of that set; the model takes the order of the
  input. \<^verbatim>\<open>data.setdefault("tweets", [])\<close> happens before the call.
\<close>

definition fetch_tweets_by_id ::
  "env \<Rightarrow> db \<Rightarrow> string list \<Rightarrow> world \<Rightarrow> (exn + unit) \<times> db \<times> world" where
  "fetch_tweets_by_id en data tweet_ids w =
     (let ids = filter (\<lambda>x. x \<notin> get_known data) (remdups tweet_ids)
      in if ids = [] then (Inr (), data, w)
         else
           (let data1 = data\<lparr>db_tweets := Some (get_list (db_tweets data))\<rparr>
            in case client_get_tweets en ids w of
                 (Inl e, w') \<Rightarrow> (Inl e, data1, w')
               | (Inr got, w') \<Rightarrow>
                   (Inr (),
                    data1\<lparr>db_tweets := Some (get_list (db_tweets data) @ tr_data got),
                          db_errors := Some (get_list (db_errors data) @ tr_errors got)\<rparr>,
                    w')))"

section \<open>Reading the scraped document\<close>

text \<open>
  The document is JSON of any shape, read with Python's subscripts. A subscript that does
  not apply raises: \<^verbatim>\<open>KeyError\<close> for a key a dictionary lacks, \<^verbatim>\<open>IndexError\<close> for an
  empty list, \<^verbatim>\<open>TypeError\<close> otherwise. A dictionary is the list of its items, each key
  once, as \<^verbatim>\<open>json\<close> has loaded it.
\<close>

definition bindE :: "exn + 'a \<Rightarrow> ('a \<Rightarrow> exn + 'b) \<Rightarrow> exn + 'b" where
  "bindE r f = (case r of Inl e \<Rightarrow> Inl e | Inr v \<Rightarrow> f v)"

text \<open>\<^verbatim>\<open>not x\<close> is \<open>\<not> py_bool x\<close>.\<close>

fun py_bool :: "json \<Rightarrow> bool" where
  "py_bool JNull = False"
| "py_bool (JBool b) = b"
| "py_bool (JNum n) = (n \<noteq> 0)"
| "py_bool (JStr s) = (s \<noteq> [])"
| "py_bool (JArr xs) = (xs \<noteq> [])"
| "py_bool (JObj kvs) = (kvs \<noteq> [])"

text \<open>\<^verbatim>\<open>x[key]\<close> for a string \<open>key\<close>.\<close>

fun getitem :: "json \<Rightarrow> string \<Rightarrow> exn + json" where
  "getitem (JObj kvs) key = (case map_of kvs key of None \<Rightarrow> Inl (KeyError key) | Some v \<Rightarrow> Inr v)"
| "getitem _ key = Inl TypeError"

text \<open>\<^verbatim>\<open>x[0]\<close>.\<close>

fun getitem0 :: "json \<Rightarrow> exn + json" where
  "getitem0 (JArr []) = Inl IndexError"
| "getitem0 (JArr (x # xs)) = Inr x"
| "getitem0 (JStr []) = Inl IndexError"
| "getitem0 (JStr (c # cs)) = Inr (JStr [c])"
| "getitem0 (JObj kvs) = Inl (KeyError ''0'')"
| "getitem0 _ = Inl TypeError"

text \<open>\<^verbatim>\<open>for item in x\<close>: the elements of a list, the keys of a dictionary, the characters of a string.\<close>

fun py_iter :: "json \<Rightarrow> exn + json list" where
  "py_iter (JArr xs) = Inr xs"
| "py_iter (JObj kvs) = Inr (map (\<lambda>kv. JStr (fst kv)) kvs)"
| "py_iter (JStr s) = Inr (map (\<lambda>c. JStr [c]) s)"
| "py_iter _ = Inl TypeError"

text \<open>
  \<^verbatim>\<open>parse_timeline_item\<close>; \<open>result\<close> is returned grown instead of appended to in place.
  Ids are strings in this model, so a \<^verbatim>\<open>rest_id\<close> that is not a JSON string is outside
  the documents the model reads; it is reported as \<^verbatim>\<open>TypeError\<close>.
\<close>

definition parse_timeline_item :: "json \<Rightarrow> string list \<Rightarrow> exn + string list" where
  "parse_timeline_item content result =
     bindE (getitem content ''itemContent'') (\<lambda>item_content.
     bindE (getitem item_content ''itemType'') (\<lambda>item_type.
       if item_type \<noteq> JStr ''TimelineTweet'' then Inr result
       else
         bindE (getitem item_content ''tweet_results'') (\<lambda>tweet_results.
         bindE (getitem tweet_results ''result'') (\<lambda>inner.
         bindE (getitem inner ''__typename'') (\<lambda>typename.
           if typename \<noteq> JStr ''Tweet'' then Inr result
           else
             bindE (getitem inner ''rest_id'') (\<lambda>rest_id.
               case rest_id of JStr s \<Rightarrow> Inr (result @ [s]) | _ \<Rightarrow> Inl TypeError))))))"

text \<open>The loop \<^verbatim>\<open>for item in content["items"]\<close> of \<^verbatim>\<open>parse_entry_content\<close>.\<close>

fun parse_items :: "json list \<Rightarrow> string list \<Rightarrow> exn + string list" where
  "parse_items [] result = Inr result"
| "parse_items (item # items) result =
     bindE (getitem item ''item'') (\<lambda>it.
     bindE (parse_timeline_item it result) (\<lambda>result'. parse_items items result'))"

definition parse_entry_content :: "json \<Rightarrow> string list \<Rightarrow> exn + string list" where
  "parse_entry_content content result =
     bindE (getitem content ''entryType'') (\<lambda>entry_type.
       if entry_type = JStr ''TimelineTimelineItem'' then parse_timeline_item content result
       else if entry_type = JStr ''TimelineTimelineModule'' then
         bindE (getitem content ''items'') (\<lambda>items.
         bindE (py_iter items) (\<lambda>its. parse_items its result))
       else Inl RuntimeError)"

text \<open>The loop \<^verbatim>\<open>for entry in ...["entries"]\<close> of \<^verbatim>\<open>get_related_tweets\<close>.\<close>

fun parse_entries :: "json list \<Rightarrow> string list \<Rightarrow> exn + string list" where
  "parse_entries [] result = Inr result"
| "parse_entries (entry # entries) result =
     bindE (getitem entry ''content'') (\<lambda>content.
     bindE (parse_entry_content content result) (\<lambda>result'. parse_entries entries result'))"

text \<open>The body of the \<^verbatim>\<open>try\<close> of \<^verbatim>\<open>get_related_tweets\<close>, starting from \<open>result = []\<close>.\<close>

definition scrape_entries :: "json \<Rightarrow> exn + string list" where
  "scrape_entries response_json =
     bindE (getitem response_json ''data'') (\<lambda>d.
     bindE (getitem d ''threaded_conversation_with_injections_v2'') (\<lambda>conv.
     bindE (getitem conv ''instructions'') (\<lambda>instructions.
     bindE (getitem0 instructions) (\<lambda>first.
     bindE (getitem first ''entries'') (\<lambda>entries.
     bindE (py_iter entries) (\<lambda>es. parse_entries es []))))))"

section \<open>The scrape client: \<^verbatim>\<open>get_guest_token\<close>, \<^verbatim>\<open>get_related_tweets\<close>\<close>

definition get_guest_token :: "env \<Rightarrow> world \<Rightarrow> (exn + string) \<times> world" where
  "get_guest_token en w = (e_guest en (trace w), log_event EvGuest w)"

text \<open>
  The loop \<^verbatim>\<open>while True\<close> of \<^verbatim>\<open>get_related_tweets\<close>: send, leave the loop unless the
  status is 429, else sleep until the reset instant and send again. The loop need not end,
  so the function is partial: \<open>None\<close> is a run that never leaves the loop.
  \<^verbatim>\<open>response.headers[...]\<close> raises \<^verbatim>\<open>KeyError\<close> without the header, \<^verbatim>\<open>float\<close> raises
  \<^verbatim>\<open>ValueError\<close> on text that is no number, and \<^verbatim>\<open>time.sleep\<close> raises \<^verbatim>\<open>ValueError\<close> on a
  negative duration. The clock's floating-point readings are modelled as reals.
\<close>

partial_function (option) send_loop ::
  "env \<Rightarrow> string \<Rightarrow> string \<Rightarrow> world \<Rightarrow> ((exn + http_response) \<times> world) option" where
  "send_loop en tweet guest_token w =
     (case e_send en (trace w) tweet guest_token of
        Inl e \<Rightarrow> Some (Inl e, log_event (EvSend tweet guest_token) w)
      | Inr response \<Rightarrow>
          if status_code response \<noteq> 429
          then Some (Inr response, log_event (EvSend tweet guest_token) w)
          else
            (case x_rate_limit_reset response of
               NoHeader \<Rightarrow>
                 Some (Inl (KeyError ''x-rate-limit-reset''), log_event (EvSend tweet guest_token) w)
             | NotAFloat \<Rightarrow> Some (Inl ValueError, log_event (EvSend tweet guest_token) w)
             | ResetAt resume \<Rightarrow>
                 (case time_time en (log_event (EvSend tweet guest_token) w) of
                    (now, w2) \<Rightarrow>
                      if resume - now < 0 then Some (Inl ValueError, w2)
                      else
                        (case e_sleep en (trace w2) of
                           Some e \<Rightarrow> Some (Inl e, log_event (EvSleep (resume - now)) w2)
                         | None \<Rightarrow>
                             send_loop en tweet guest_token
                               (log_event (EvSleep (resume - now)) w2)))))"

text \<open>
  What follows the loop: \<^verbatim>\<open>raise_for_status\<close> (an \<^verbatim>\<open>HTTPError\<close> for a status from 400 to
  599), the check for 200, \<^verbatim>\<open>response.json()\<close> (a \<^verbatim>\<open>ValueError\<close> when the body is no
  JSON), the test of \<^verbatim>\<open>response_json["data"]\<close>, and the \<^verbatim>\<open>try\<close> whose every exception
  becomes a \<^verbatim>\<open>RuntimeError\<close>.
\<close>

definition scrape_result :: "http_response \<Rightarrow> exn + string list" where
  "scrape_result response =
     (if 400 \<le> status_code response \<and> status_code response < 600
      then Inl (HTTPError (status_code response))
      else if status_code response \<noteq> 200 then Inl RuntimeError
      else
        (case body response of
           None \<Rightarrow> Inl ValueError
         | Some response_json \<Rightarrow>
             bindE (getitem response_json ''data'') (\<lambda>d.
               if \<not> py_bool d then Inr [''tweet_was_deleted'']
               else
                 (case scrape_entries response_json of
                    Inl ex \<Rightarrow> Inl RuntimeError
                  | Inr result \<Rightarrow>
                      if result = [] then Inr [''couldnt_scrape''] else Inr result))))"

definition get_related_tweets ::
  "env \<Rightarrow> string \<Rightarrow> string \<Rightarrow> world \<Rightarrow> ((exn + string list) \<times> world) option" where
  "get_related_tweets en tweet guest_token w =
     (case send_loop en tweet guest_token w of
        None \<Rightarrow> None
      | Some (r, w') \<Rightarrow> Some (bindE r scrape_result, w'))"

section \<open>Checkpoints: \<^verbatim>\<open>write_gen\<close>\<close>

text \<open>
  \<^verbatim>\<open>main\<close> passes \<^verbatim>\<open>lambda: next(gen_obj)\<close> as \<^verbatim>\<open>write_fn\<close>. One step of the generator: on
  the first step \<^verbatim>\<open>last = time.time()\<close> runs first; then \<^verbatim>\<open>now = time.time()\<close>, and
  \<^verbatim>\<open>write_db\<close> is called when \<^verbatim>\<open>now - last > 10\<close>. A call of \<^verbatim>\<open>write_db\<close> is the event
  \<open>EvWriteDb\<close> with the data written.
\<close>

definition write_gen_next :: "env \<Rightarrow> db \<Rightarrow> world \<Rightarrow> world" where
  "write_gen_next en data w =
     (case (case gen_last w of None \<Rightarrow> time_time en w | Some l \<Rightarrow> (l, w)) of
        (last_t, w1) \<Rightarrow>
          (case time_time en w1 of
             (now, w2) \<Rightarrow>
               if now - last_t > 10
               then (log_event (EvWriteDb data) w2)\<lparr>gen_last := Some now\<rparr>
               else w2\<lparr>gen_last := Some last_t\<rparr>))"

section \<open>The reply closure: \<^verbatim>\<open>do_reply_closure\<close>\<close>

text \<open>
  The variables of \<^verbatim>\<open>do_reply_closure\<close>. \<open>cs_tweets\<close> and \<open>cs_errors\<close> are the lists inside
  \<open>data\<close>; \<open>cs_users\<close> is carried along because \<^verbatim>\<open>write_fn\<close> writes the whole of \<open>data\<close>.
\<close>

record closure_state =
  cs_users :: "user list option"
  cs_tweets :: "tweet list"
  cs_errors :: "api_error list"
  cs_known :: "string set"
  cs_guest_token :: "string option"
  cs_batch :: "string list"

definition cs_db :: "closure_state \<Rightarrow> db" where
  "cs_db st = \<lparr>db_users = cs_users st, db_tweets = Some (cs_tweets st), db_errors = Some (cs_errors st)\<rparr>"

text \<open>\<^verbatim>\<open>not guest_token\<close>: no token yet, or an empty one.\<close>

definition no_token :: "string option \<Rightarrow> bool" where
  "no_token g = (case g of None \<Rightarrow> True | Some s \<Rightarrow> s = [])"

text \<open>The test \<^verbatim>\<open>not scraped and tweet["author_id"] in expand_ids\<close>, with
  \<^verbatim>\<open>scraped = tweet.get("scraped_refs", [])\<close>.\<close>

definition needs_scrape :: "string set \<Rightarrow> tweet \<Rightarrow> bool" where
  "needs_scrape expand_ids tw = (get_list (scraped_refs tw) = [] \<and> author_id tw \<in> expand_ids)"

text \<open>
  The first half of the loop body, for the tweet at index \<open>i\<close>: it returns \<open>scraped\<close> and
  the state. A \<^verbatim>\<open>KeyboardInterrupt\<close> out of \<^verbatim>\<open>get_related_tweets\<close> calls \<^verbatim>\<open>write_fn\<close> and is
  raised again; any other exception, and any exception of \<^verbatim>\<open>get_guest_token\<close>, leaves the
  function as it is. A token in hand is used as it is (\<open>get_list\<close> reads the string out of
  the variable). The call of \<^verbatim>\<open>get_related_tweets\<close> is the event \<open>EvScrape\<close>, a call of
  \<^verbatim>\<open>write_fn\<close> the event \<open>EvWriteFn\<close>.
\<close>

definition scrape_tweet ::
  "env \<Rightarrow> string set \<Rightarrow> (db \<Rightarrow> world \<Rightarrow> world) \<Rightarrow> nat \<Rightarrow> closure_state \<Rightarrow> world
    \<Rightarrow> ((exn + string list \<times> closure_state) \<times> world) option" where
  "scrape_tweet en expand_ids write_fn i st w =
     (let tw = cs_tweets st ! i
      in if \<not> needs_scrape expand_ids tw then Some (Inr (get_list (scraped_refs tw), st), w)
         else
           (case (if no_token (cs_guest_token st) then get_guest_token en w
                  else (Inr (get_list (cs_guest_token st)), w)) of
              (Inl e, w1) \<Rightarrow> Some (Inl e, w1)
            | (Inr token, w1) \<Rightarrow>
                (case get_related_tweets en (tweet_id tw) token (log_event (EvScrape (tweet_id tw)) w1) of
                   None \<Rightarrow> None
                 | Some (Inl e, w2) \<Rightarrow>
                     if e = KeyboardInterrupt
                     then Some (Inl e,
                            write_fn (cs_db (st\<lparr>cs_guest_token := Some token\<rparr>)) (log_event EvWriteFn w2))
                     else Some (Inl e, w2)
                 | Some (Inr scraped, w2) \<Rightarrow>
                     Some (Inr (scraped,
                             st\<lparr>cs_guest_token := Some token,
                                cs_tweets := (cs_tweets st)[i := tw\<lparr>scraped_refs := Some scraped\<rparr>]\<rparr>),
                           w2))))"

text \<open>
  The ids a tweet adds to the batch: its \<^verbatim>\<open>referenced_tweets\<close> and \<open>scraped\<close>, as a set,
  without those in \<open>known\<close>. Python leaves the order of a set open; the model keeps the
  order of the lists.
\<close>

definition new_refs :: "string set \<Rightarrow> tweet \<Rightarrow> string list \<Rightarrow> string list" where
  "new_refs known tw scraped =
     filter (\<lambda>r. r \<notin> known) (remdups (map ref_id (get_list (referenced_tweets tw)) @ scraped))"

text \<open>The whole loop body for the tweet at index \<open>i\<close>, ending in \<^verbatim>\<open>write_fn()\<close>.\<close>

definition scan_tweet ::
  "env \<Rightarrow> string set \<Rightarrow> (db \<Rightarrow> world \<Rightarrow> world) \<Rightarrow> nat \<Rightarrow> closure_state \<Rightarrow> world
    \<Rightarrow> ((exn + closure_state) \<times> world) option" where
  "scan_tweet en expand_ids write_fn i st w =
     (case scrape_tweet en expand_ids write_fn i st w of
        None \<Rightarrow> None
      | Some (Inl e, w1) \<Rightarrow> Some (Inl e, w1)
      | Some (Inr (scraped, st1), w1) \<Rightarrow>
          (let all_refs = new_refs (cs_known st1) (cs_tweets st1 ! i) scraped;
               st2 = st1\<lparr>cs_batch := cs_batch st1 @ all_refs,
                         cs_known := cs_known st1 \<union> set all_refs\<rparr>
           in Some (Inr st2, write_fn (cs_db st2) (log_event EvWriteFn w1))))"

text \<open>\<^verbatim>\<open>for tweet in tweets[pos:]\<close>, over the indices of the slice.\<close>

fun scan_tweets ::
  "env \<Rightarrow> string set \<Rightarrow> (db \<Rightarrow> world \<Rightarrow> world) \<Rightarrow> nat list \<Rightarrow> closure_state \<Rightarrow> world
    \<Rightarrow> ((exn + closure_state) \<times> world) option" where
  "scan_tweets en expand_ids write_fn [] st w = Some (Inr st, w)"
| "scan_tweets en expand_ids write_fn (i # rest) st w =
     (case scan_tweet en expand_ids write_fn i st w of
        None \<Rightarrow> None
      | Some (Inl e, w1) \<Rightarrow> Some (Inl e, w1)
      | Some (Inr st1, w1) \<Rightarrow> scan_tweets en expand_ids write_fn rest st1 w1)"

text \<open>\<^verbatim>\<open>for chunk in range(0, len(batch), 100)\<close>: one lookup and one \<^verbatim>\<open>write_fn()\<close> per slice.\<close>

fun fetch_chunks ::
  "env \<Rightarrow> (db \<Rightarrow> world \<Rightarrow> world) \<Rightarrow> string list list \<Rightarrow> closure_state \<Rightarrow> world
    \<Rightarrow> (exn + closure_state) \<times> world" where
  "fetch_chunks en write_fn [] st w = (Inr st, w)"
| "fetch_chunks en write_fn (chunk # rest) st w =
     (case client_get_tweets en chunk w of
        (Inl e, w1) \<Rightarrow> (Inl e, w1)
      | (Inr got, w1) \<Rightarrow>
          (let st1 = st\<lparr>cs_tweets := cs_tweets st @ tr_data got,
                        cs_errors := cs_errors st @ tr_errors got\<rparr>
           in fetch_chunks en write_fn rest st1 (write_fn (cs_db st1) (log_event EvWriteFn w1))))"

text \<open>
  \<^verbatim>\<open>while True\<close>: scan the tweets from \<open>pos\<close>, stop when the batch is empty, else fetch the
  batch and go on from the old end of the list. The loop need not end (every lookup may
  bring tweets with new references), so the function is partial.
\<close>

partial_function (option) closure_loop ::
  "env \<Rightarrow> string set \<Rightarrow> (db \<Rightarrow> world \<Rightarrow> world) \<Rightarrow> nat \<Rightarrow> closure_state \<Rightarrow> world
    \<Rightarrow> ((exn + closure_state) \<times> world) option" where
  "closure_loop en expand_ids write_fn pos st w =
     (case scan_tweets en expand_ids write_fn [pos ..< length (cs_tweets st)] st w of
        None \<Rightarrow> None
      | Some (Inl e, w1) \<Rightarrow> Some (Inl e, w1)
      | Some (Inr st1, w1) \<Rightarrow>
          if cs_batch st1 = [] then Some (Inr st1, w1)
          else
            (case fetch_chunks en write_fn (chunks100 (cs_batch st1)) st1 w1 of
               (Inl e, w2) \<Rightarrow> Some (Inl e, w2)
             | (Inr st2, w2) \<Rightarrow>
                 closure_loop en expand_ids write_fn (length (cs_tweets st1))
                   (st2\<lparr>cs_batch := []\<rparr>) w2))"

text \<open>The state before the loop: \<open>known\<close> is \<^verbatim>\<open>get_known(data)\<close> and every cached \<^verbatim>\<open>scraped_refs\<close>.\<close>

definition closure_init :: "db \<Rightarrow> closure_state" where
  "closure_init data =
     \<lparr>cs_users = db_users data,
      cs_tweets = get_list (db_tweets data),
      cs_errors = get_list (db_errors data),
      cs_known = get_known data
                 \<union> set (concat (map (\<lambda>tw. get_list (scraped_refs tw)) (get_list (db_tweets data)))),
      cs_guest_token = None,
      cs_batch = []\<rparr>"

definition do_reply_closure ::
  "env \<Rightarrow> db \<Rightarrow> string set \<Rightarrow> (db \<Rightarrow> world \<Rightarrow> world) \<Rightarrow> world \<Rightarrow> ((exn + db) \<times> world) option" where
  "do_reply_closure en data expand_ids write_fn w =
     (case closure_loop en expand_ids write_fn 0 (closure_init data) w of
        None \<Rightarrow> None
      | Some (Inl e, w') \<Rightarrow> Some (Inl e, w')
      | Some (Inr st, w') \<Rightarrow> Some (Inr (cs_db st), w'))"

section \<open>Reading a trace\<close>

text \<open>
  What a trace says happened: the tweets \<^verbatim>\<open>get_related_tweets\<close> was called for, the id
  lists of the lookups, the tweets and errors the lookups returned, and the databases
  \<^verbatim>\<open>write_db\<close> wrote, each in the order of the run. \<open>since w w'\<close> is what the trace of
  \<open>w'\<close> has beyond that of \<open>w\<close>.
\<close>

fun scrape_of :: "event \<Rightarrow> string list" where
  "scrape_of (EvScrape x) = [x]"
| "scrape_of _ = []"

fun send_of :: "event \<Rightarrow> string list" where
  "send_of (EvSend x g) = [x]"
| "send_of _ = []"

fun lookup_of :: "event \<Rightarrow> string list list" where
  "lookup_of (EvGetTweets ids r) = [ids]"
| "lookup_of _ = []"

fun fetched_of :: "event \<Rightarrow> tweet list" where
  "fetched_of (EvGetTweets ids (Inr r)) = tr_data r"
| "fetched_of _ = []"

fun fetched_error_of :: "event \<Rightarrow> api_error list" where
  "fetched_error_of (EvGetTweets ids (Inr r)) = tr_errors r"
| "fetched_error_of _ = []"

fun write_of :: "event \<Rightarrow> db list" where
  "write_of (EvWriteDb d) = [d]"
| "write_of _ = []"

definition scrape_calls :: "event list \<Rightarrow> string list" where
  "scrape_calls tr = concat (map scrape_of tr)"

definition sends :: "event list \<Rightarrow> string list" where
  "sends tr = concat (map send_of tr)"

definition lookups :: "event list \<Rightarrow> string list list" where
  "lookups tr = concat (map lookup_of tr)"

definition fetched :: "event list \<Rightarrow> tweet list" where
  "fetched tr = concat (map fetched_of tr)"

definition fetched_errors :: "event list \<Rightarrow> api_error list" where
  "fetched_errors tr = concat (map fetched_error_of tr)"

definition writes :: "event list \<Rightarrow> db list" where
  "writes tr = concat (map write_of tr)"

definition since :: "world \<Rightarrow> world \<Rightarrow> event list" where
  "since w w' = drop (length (trace w)) (trace w')"

text \<open>
  Whether the next step of \<^verbatim>\<open>write_gen\<close> finds \<^verbatim>\<open>now - last > 10\<close>: on the first step both
  are read from the clock, later \<open>last\<close> is the instant of the last write.
\<close>

definition flush_due :: "env \<Rightarrow> world \<Rightarrow> bool" where
  "flush_due en w =
     (case gen_last w of
        None \<Rightarrow> e_time en (Suc (clock_reads w)) - e_time en (clock_reads w) > 10
      | Some l \<Rightarrow> e_time en (clock_reads w) - l > 10)"



section \<open>Writing the database: \<^verbatim>\<open>write_db\<close>\<close>

text \<open>
  The files are a map from path to content. \<^verbatim>\<open>write_db\<close> does three things: it creates
  a temporary file, \<^verbatim>\<open>json.dump\<close> writes the document into it piece by piece, and
  \<^verbatim>\<open>os.replace\<close> moves it over the target. Each is a step on the files; a crash stops the
  run between two steps, and a reader sees the files as they are between two steps.
\<close>

type_synonym files = "string \<Rightarrow> string option"

datatype file_op =
    Create string
  | Append string string
  | Replace string string

text \<open>
  \<^verbatim>\<open>os.replace(src, dst)\<close> is one step: afterwards \<open>dst\<close> has the content of \<open>src\<close>, and \<open>src\<close>
  is gone.
\<close>

fun apply_op :: "file_op \<Rightarrow> files \<Rightarrow> files" where
  "apply_op (Create p) fs = fs(p \<mapsto> [])"
| "apply_op (Append p s) fs = fs(p \<mapsto> (case fs p of None \<Rightarrow> s | Some c \<Rightarrow> c @ s))"
| "apply_op (Replace src dst) fs = (if src = dst then fs else (fs(dst := fs src))(src := None))"

text \<open>The files before the first step and after every step.\<close>

fun file_states :: "file_op list \<Rightarrow> files \<Rightarrow> files list" where
  "file_states [] fs = [fs]"
| "file_states (op # ops) fs = fs # file_states ops (apply_op op fs)"









section \<open>Auxiliary notions for the proofs\<close>

text \<open>The events of one call of \<^verbatim>\<open>get_related_tweets\<close>: requests and sleeps.\<close>

fun scrape_io :: "event \<Rightarrow> bool" where
  "scrape_io (EvSend x g) = True"
| "scrape_io (EvSleep d) = True"
| "scrape_io _ = False"

text \<open>Events that are no call of \<^verbatim>\<open>get_related_tweets\<close> and no lookup of tweets.\<close>

fun silent :: "event \<Rightarrow> bool" where
  "silent (EvScrape x) = False"
| "silent (EvGetTweets ids r) = False"
| "silent _ = True"

text \<open>
  A tweet record \<open>o\<close> and the same record after the loop body has run on it: given
  \<^verbatim>\<open>scraped_refs\<close> that are not empty if it needed scraping, and untouched otherwise.
\<close>

definition scanned :: "string set \<Rightarrow> tweet \<Rightarrow> tweet \<Rightarrow> bool" where
  "scanned ex orig tw =
     (if needs_scrape ex orig then (\<exists>r. r \<noteq> [] \<and> tw = orig\<lparr>scraped_refs := Some r\<rparr>) else tw = orig)"

text \<open>
  The invariant that ties the calls of \<^verbatim>\<open>get_related_tweets\<close> to the tweet list: with
  \<open>tweets0\<close> the list at the start and \<open>tr0\<close> the trace at the start, the list is \<open>tweets0\<close>
  and the tweets fetched since; the first \<open>pos\<close> records have been scanned, the rest are as
  they came; and the calls so far are those of the first \<open>pos\<close> records that needed one.
\<close>

definition inv_scrape ::
  "string set \<Rightarrow> tweet list \<Rightarrow> event list \<Rightarrow> nat \<Rightarrow> closure_state \<Rightarrow> world \<Rightarrow> bool" where
  "inv_scrape ex tweets0 tr0 pos st w =
     (\<exists>new. trace w = tr0 @ new
        \<and> pos \<le> length (cs_tweets st)
        \<and> length (cs_tweets st) = length (tweets0 @ fetched new)
        \<and> list_all2 (scanned ex) (take pos (tweets0 @ fetched new)) (take pos (cs_tweets st))
        \<and> drop pos (cs_tweets st) = drop pos (tweets0 @ fetched new)
        \<and> scrape_calls new =
            map tweet_id (filter (needs_scrape ex) (take pos (tweets0 @ fetched new))))"

text \<open>What is left of it when an exception ends the run.\<close>

definition err_scrape :: "string set \<Rightarrow> tweet list \<Rightarrow> event list \<Rightarrow> world \<Rightarrow> bool" where
  "err_scrape ex tweets0 tr0 w =
     (\<exists>new k. trace w = tr0 @ new
        \<and> scrape_calls new =
            map tweet_id (filter (needs_scrape ex) (take k (tweets0 @ fetched new))))"



text \<open>The events of a checkpoint: a call of \<^verbatim>\<open>write_fn\<close>, and a write of the database.\<close>

fun checkpoint_event :: "event \<Rightarrow> bool" where
  "checkpoint_event EvWriteFn = True"
| "checkpoint_event (EvWriteDb d) = True"
| "checkpoint_event _ = False"

text \<open>The invariant of the sizes: every lookup since the start names between 1 and 100 ids.\<close>

definition sized :: "string list \<Rightarrow> bool" where
  "sized ids = (ids \<noteq> [] \<and> length ids \<le> 100)"

definition inv_size :: "event list \<Rightarrow> world \<Rightarrow> bool" where
  "inv_size tr0 w = (\<exists>new. trace w = tr0 @ new \<and> list_all sized (lookups new))"

section \<open>Concrete runs\<close>

text \<open>
  An environment in which nothing happens: lookups return nothing, the scrape endpoint
  answers 200 with an empty \<^verbatim>\<open>data\<close>, nothing is interrupted and the clock stands at 0.
\<close>

definition ok_response :: "json \<Rightarrow> http_response" where
  "ok_response j = \<lparr>status_code = 200, x_rate_limit_reset = NoHeader, body = Some j\<rparr>"

definition quiet_env :: env where
  "quiet_env =
     \<lparr>e_get_users = (\<lambda>h req. Inr \<lparr>ur_data = Some [], ur_errors = None\<rparr>),
      e_get_tweets = (\<lambda>h ids. Inr \<lparr>tr_data = [], tr_errors = []\<rparr>),
      e_guest = (\<lambda>h. Inr ''g''),
      e_send = (\<lambda>h tw g. Inr (ok_response (JObj [(''data'', JObj [])]))),
      e_sleep = (\<lambda>h. None),
      e_time = (\<lambda>n. 0)\<rparr>"

definition mk_tweet :: "string \<Rightarrow> string \<Rightarrow> string list \<Rightarrow> string list option \<Rightarrow> tweet" where
  "mk_tweet i a refs scraped =
     \<lparr>tweet_id = i, author_id = a, conversation_id = i,
      referenced_tweets = (if refs = [] then None
                           else Some (map (\<lambda>r. \<lparr>ref_type = ''replied_to'', ref_id = r\<rparr>) refs)),
      scraped_refs = scraped\<rparr>"

text \<open>A first run: the only tweet is by author 7, and the lookup of user 7 comes back as an error.\<close>

definition c9_error :: api_error where
  "c9_error = \<lparr>resource_id = ''7'', err_value = ''7'', err_title = ''Not Found Error'',
               err_detail = ''Could not find user with ids: [7].''\<rparr>"

definition c9_env :: env where
  "c9_env = quiet_env\<lparr>e_get_users := (\<lambda>h req. Inr \<lparr>ur_data = Some [], ur_errors = Some [c9_error]\<rparr>)\<rparr>"

definition c9_data :: db where
  "c9_data = \<lparr>db_users = Some [], db_tweets = Some [mk_tweet ''100'' ''7'' [] None], db_errors = None\<rparr>"

text \<open>101 ids given on the command line to a fresh database: \<open>1\<close>, \<open>11\<close>, \<open>111\<close>, ...\<close>

definition c7_ids :: "string list" where
  "c7_ids = map (\<lambda>n. replicate (Suc n) CHR ''1'') [0 ..< 101]"

text \<open>
  The scrape endpoint answers 429 with the reset instant 100, and the local clock reads
  100.5: the reset instant has passed when the response is handled.
\<close>

definition c8_env :: env where
  "c8_env = quiet_env
     \<lparr>e_send := (\<lambda>h tw g. Inr \<lparr>status_code = 429, x_rate_limit_reset = ResetAt 100, body = None\<rparr>),
      e_time := (\<lambda>n. 100.5)\<rparr>"

text \<open>The scrape endpoint answers 200 with the JSON object \<^verbatim>\<open>{}\<close>: no \<^verbatim>\<open>data\<close> member at all.\<close>

definition c2_env :: env where
  "c2_env = quiet_env\<lparr>e_send := (\<lambda>h tw g. Inr (ok_response (JObj [])))\<rparr>"

text \<open>
  One tweet of an author to expand. The scrape endpoint answers the first request with
  429 and a reset instant 5 seconds ahead, and every later request with 200 and an empty
  \<^verbatim>\<open>data\<close>.
\<close>

definition c1_env :: env where
  "c1_env = quiet_env
     \<lparr>e_send := (\<lambda>h tw g.
         if sends h = []
         then Inr \<lparr>status_code = 429, x_rate_limit_reset = ResetAt 5, body = None\<rparr>
         else Inr (ok_response (JObj [(''data'', JObj [])])))\<rparr>"

definition c1_data :: db where
  "c1_data = \<lparr>db_users = Some [], db_tweets = Some [mk_tweet ''100'' ''7'' [] None], db_errors = Some []\<rparr>"

definition c1_final :: db where
  "c1_final = \<lparr>db_users = Some [],
               db_tweets = Some [mk_tweet ''100'' ''7'' [] (Some [''tweet_was_deleted''])],
               db_errors = Some []\<rparr>"

definition c1_world :: world where
  "c1_world = \<lparr>trace = [EvGuest, EvScrape ''100'', EvSend ''100'' ''g'', EvSleep 5,
                         EvSend ''100'' ''g'', EvWriteFn],
               clock_reads = 3, gen_last = Some 0\<rparr>"

text \<open>
  A document that parses and has no entries:
  \<^verbatim>\<open>{"data": {"threaded_conversation_with_injections_v2": {"instructions": [{"entries": []}]}}}\<close>.
\<close>

definition no_entries_json :: json where
  "no_entries_json =
     JObj [(''data'', JObj [(''threaded_conversation_with_injections_v2'',
        JObj [(''instructions'', JArr [JObj [(''entries'', JArr [])]])])])]"

definition c2w_env :: env where
  "c2w_env = quiet_env\<lparr>e_send := (\<lambda>h tw g. Inr (ok_response no_entries_json))\<rparr>"

text \<open>A later run: the tweet 888 of an author to expand has the sentinel stored.\<close>

definition c2w_data :: db where
  "c2w_data = \<lparr>db_users = Some [],
                db_tweets = Some [mk_tweet ''888'' ''7'' [] (Some [''couldnt_scrape''])],
                db_errors = Some []\<rparr>"




text \<open>
  One stored tweet, 300, whose author is not expanded and which replies to the unknown
  tweet 299; the lookup of 299 returns nothing.
\<close>

definition c6w_data :: db where
  "c6w_data = \<lparr>db_users = Some [], db_tweets = Some [mk_tweet ''300'' ''8'' [''299''] None],
                db_errors = Some []\<rparr>"

definition c6w_world :: world where
  "c6w_world = \<lparr>trace = [EvWriteFn, EvGetTweets [''299''] (Inr \<lparr>tr_data = [], tr_errors = []\<rparr>),
                          EvWriteFn],
                clock_reads = 3, gen_last = Some 0\<rparr>"

text \<open>
  Two stored tweets, 401 and 402, of the author 4 to expand; the clock stands at 0, so no
  ten seconds pass.
\<close>

definition c4_data :: db where
  "c4_data = \<lparr>db_users = Some [],
               db_tweets = Some [mk_tweet ''401'' ''4'' [] None, mk_tweet ''402'' ''4'' [] None],
               db_errors = Some []\<rparr>"

definition c4_final :: db where
  "c4_final = \<lparr>db_users = Some [],
               db_tweets = Some [mk_tweet ''401'' ''4'' [] (Some [''tweet_was_deleted'']),
                                 mk_tweet ''402'' ''4'' [] (Some [''tweet_was_deleted''])],
               db_errors = Some []\<rparr>"

definition c4_world :: world where
  "c4_world = \<lparr>trace = [EvGuest, EvScrape ''401'', EvSend ''401'' ''g'', EvWriteFn,
                         EvScrape ''402'', EvSend ''402'' ''g'', EvWriteFn],
               clock_reads = 3, gen_last = Some 0\<rparr>"

text \<open>A clock that advances 11 seconds from one reading to the next.\<close>

definition c4w_env :: env where
  "c4w_env = quiet_env\<lparr>e_time := (\<lambda>n. 11 * real n)\<rparr>"







text \<open>
  The scrape endpoint answers every request with 429 and the reset instant 5; the clock
  stands at 0.
\<close>

definition always_429_env :: env where
  "always_429_env = quiet_env
     \<lparr>e_send := (\<lambda>h tw g. Inr \<lparr>status_code = 429, x_rate_limit_reset = ResetAt 5, body = None\<rparr>)\<rparr>"

text \<open>The scrape endpoint answers 403.\<close>

definition forbidden_env :: env where
  "forbidden_env = quiet_env
     \<lparr>e_send := (\<lambda>h tw g. Inr \<lparr>status_code = 403, x_rate_limit_reset = NoHeader, body = None\<rparr>)\<rparr>"

section \<open>Slices of 100\<close>

lemma chunks100_Nil: "chunks100 [] = []"
  by (simp add: chunks100.simps)

lemma chunks100_short: "xs \<noteq> [] \<Longrightarrow> length xs \<le> 100 \<Longrightarrow> chunks100 xs = [xs]"
  by (subst chunks100.simps) (simp add: chunks100_Nil)


lemma chunks100_bound: "c \<in> set (chunks100 xs) \<Longrightarrow> length c \<le> 100 \<and> c \<noteq> []"
proof (induction xs rule: chunks100.induct)
  case (1 xs)
  show ?case
  proof (cases "xs = []")
    case True
    with "1.prems" show ?thesis by (simp add: chunks100_Nil)
  next
    case False
    with "1.prems" have "c = take 100 xs \<or> c \<in> set (chunks100 (drop 100 xs))"
      by (subst (asm) chunks100.simps) simp
    with False "1.IH" show ?thesis by auto
  qed
qed

section \<open>User names\<close>

text \<open>
  Claim C9. There is a database state the program reaches by itself on which
  \<^verbatim>\<open>get_user_ids\<close> fails: \<^verbatim>\<open>get_user_info\<close> turns a per-id lookup error into a user record
  whose \<^verbatim>\<open>username\<close> is \<^verbatim>\<open>None\<close> (first conjunct: the run on a database whose only tweet
  is by the unknown author 7, the lookup of 7 being answered by an error), and on the
  user list so produced the selector \<^verbatim>\<open>alice\<close>, which is not numeric, makes
  \<^verbatim>\<open>get_user_ids\<close> raise \<^verbatim>\<open>AttributeError\<close> while it scans the cached users. The world is
  returned unchanged, so no lookup was sent; this holds for every client and every case
  folding.
\<close>

theorem get_user_ids_attribute_error:
  "get_user_info c9_env c9_data world0 =
     (Inr (), c9_data\<lparr>db_users := Some [error_user c9_error]\<rparr>,
      log_event (EvGetUsers (ByIds [''7''])) world0)
   \<and> username (error_user c9_error) = None
   \<and> \<not> isdigit ''alice''
   \<and> get_user_ids cf en [error_user c9_error] (Some [''alice'']) w =
       ((Inl AttributeError, [error_user c9_error]), w)"
proof -
  have run: "get_user_info c9_env c9_data world0 =
      (Inr (), c9_data\<lparr>db_users := Some [error_user c9_error]\<rparr>,
       log_event (EvGetUsers (ByIds [''7''])) world0)"
    by (simp add: get_user_info_def c9_data_def c9_env_def quiet_env_def mk_tweet_def
        chunks100_short client_get_users_def get_list_def)
  have none: "username (error_user c9_error) = None"
    by (simp add: error_user_def)
  have sel: "\<not> isdigit ''alice''"
    by (simp add: isdigit_def)
  have raise: "get_user_ids cf en [error_user c9_error] (Some [''alice'']) w =
      ((Inl AttributeError, [error_user c9_error]), w)"
    by (simp add: get_user_ids_def get_list_def isdigit_def error_user_def)
  from run none sel raise show ?thesis by simp
qed

section \<open>Fetching by id\<close>

lemma c7_ids_distinct: "distinct c7_ids"
proof -
  have "inj_on (\<lambda>n. replicate (Suc n) CHR ''1'') (set [0 ..< 101])"
    by (rule inj_onI) (metis length_replicate nat.inject)
  then show ?thesis
    unfolding c7_ids_def by (simp add: distinct_map)
qed

lemma c7_ids_unknown: "x \<in> set c7_ids \<Longrightarrow> x \<notin> get_known empty_db"
proof -
  assume "x \<in> set c7_ids"
  then have "set x \<subseteq> {CHR ''1''}"
    by (auto simp: c7_ids_def)
  then have "x \<noteq> ''couldnt_scrape''" and "x \<noteq> ''tweet_was_deleted''"
    by auto
  then show ?thesis
    by (simp add: get_known_def empty_db_def get_list_def)
qed

lemma c7_ids_length: "length c7_ids = 101"
  by (simp add: c7_ids_def)

lemma c7_ids_kept: "filter (\<lambda>x. x \<notin> get_known empty_db) (remdups c7_ids) = c7_ids"
  using c7_ids_distinct c7_ids_unknown by (simp add: distinct_remdups_id filter_id_conv)

text \<open>
  Claim C7. The claim says that \<^verbatim>\<open>fetch_tweets_by_id\<close> looks the remaining ids up in
  batches of at most 100. The code hands the whole remainder to one call of
  \<^verbatim>\<open>client.get_tweets\<close>: given 101 unknown ids on a fresh database, the run makes exactly
  one lookup, and that lookup names all 101 ids.
\<close>

theorem fetch_tweets_by_id_one_call_of_101:
  "fetch_tweets_by_id quiet_env empty_db c7_ids world0 =
     (Inr (), \<lparr>db_users = None, db_tweets = Some [], db_errors = Some []\<rparr>,
      log_event (EvGetTweets c7_ids (Inr \<lparr>tr_data = [], tr_errors = []\<rparr>)) world0)
   \<and> length c7_ids = 101"
proof -
  have "c7_ids \<noteq> []"
    using c7_ids_length by auto
  then show ?thesis
    unfolding fetch_tweets_by_id_def c7_ids_kept
    by (simp add: c7_ids_length client_get_tweets_def quiet_env_def empty_db_def get_list_def)
qed

section \<open>The scrape client\<close>

lemma bindE_simps [simp]: "bindE (Inl e) f = Inl e" "bindE (Inr v) f = f v"
  by (simp_all add: bindE_def)

lemma scrape_result_nonempty: "scrape_result r = Inr refs \<Longrightarrow> refs \<noteq> []"
  by (auto simp: scrape_result_def bindE_def split: if_splits option.splits sum.splits)

lemma get_related_tweets_nonempty:
  "get_related_tweets en tw g w = Some (Inr refs, w') \<Longrightarrow> refs \<noteq> []"
  by (auto simp: get_related_tweets_def bindE_def scrape_result_nonempty
      split: option.splits sum.splits prod.splits)

text \<open>
  Claim C8. The claim says that a 429 is always followed by a sleep and another request,
  so that rate limiting never aborts the scrape. The code computes
  \<^verbatim>\<open>wait_time = resume - time.time()\<close> and passes it to \<^verbatim>\<open>time.sleep\<close> unchecked: when the
  reset instant of the header is already past on the local clock (here 100 against 100.5),
  \<^verbatim>\<open>time.sleep\<close> raises \<^verbatim>\<open>ValueError\<close>, and \<^verbatim>\<open>get_related_tweets\<close> ends with that exception
  after a single request, without sleeping or sending again.
\<close>

theorem get_related_tweets_429_past_reset:
  "get_related_tweets c8_env ''5'' ''g'' world0 =
     Some (Inl ValueError, \<lparr>trace = [EvSend ''5'' ''g''], clock_reads = 1, gen_last = None\<rparr>)"
  by (simp add: get_related_tweets_def send_loop.simps c8_env_def quiet_env_def time_time_def
      log_event_def world0_def)

section \<open>Rules for the loops of the closure\<close>

text \<open>
  An invariant of the loop body is an invariant of the loop. \<open>I\<close> holds while the loop
  runs, \<open>E\<close> is what is known when an exception ends it.
\<close>

lemma scan_tweets_rule:
  assumes run: "scan_tweets en ex wr [a ..< b] st w = Some (res, w')"
    and le: "a \<le> b"
    and inv: "I a st w"
    and step: "\<And>i st w st1 w1. i < b \<Longrightarrow> I i st w \<Longrightarrow>
        scan_tweet en ex wr i st w = Some (Inr st1, w1) \<Longrightarrow> I (Suc i) st1 w1"
    and err: "\<And>i st w e w1. i < b \<Longrightarrow> I i st w \<Longrightarrow>
        scan_tweet en ex wr i st w = Some (Inl e, w1) \<Longrightarrow> E e w1"
  shows "case res of Inr st' \<Rightarrow> I b st' w' | Inl e \<Rightarrow> E e w'"
  using run le inv
proof (induction "b - a" arbitrary: a st w)
  case 0
  then have "a = b" by simp
  with 0 show ?case by auto
next
  case (Suc k)
  then have lt: "a < b" and k: "k = b - Suc a" by auto
  then have upt: "[a ..< b] = a # [Suc a ..< b]"
    by (simp add: upt_rec)
  show ?case
  proof (cases "scan_tweet en ex wr a st w")
    case None
    with Suc.prems upt show ?thesis by simp
  next
    case (Some p)
    obtain r w1 where p: "p = (r, w1)" by (cases p)
    show ?thesis
    proof (cases r)
      case (Inl e)
      with Some p Suc.prems upt have "res = Inl e" "w' = w1" by auto
      moreover have "E e w1"
        using err [OF lt Suc.prems(3)] Some p Inl by simp
      ultimately show ?thesis by simp
    next
      case (Inr st1)
      with Some p Suc.prems upt
      have run': "scan_tweets en ex wr [Suc a ..< b] st1 w1 = Some (res, w')" by auto
      have "I (Suc a) st1 w1"
        using step [OF lt Suc.prems(3)] Some p Inr by simp
      with Suc.hyps(1) [OF k run'] lt show ?thesis by simp
    qed
  qed
qed

lemma fetch_chunks_rule:
  assumes run: "fetch_chunks en wr cs st w = (res, w')"
    and inv: "I cs st w"
    and step: "\<And>c rest st w got w1. I (c # rest) st w \<Longrightarrow>
        client_get_tweets en c w = (Inr got, w1) \<Longrightarrow>
        I rest (st\<lparr>cs_tweets := cs_tweets st @ tr_data got, cs_errors := cs_errors st @ tr_errors got\<rparr>)
          (wr (cs_db (st\<lparr>cs_tweets := cs_tweets st @ tr_data got, cs_errors := cs_errors st @ tr_errors got\<rparr>))
             (log_event EvWriteFn w1))"
    and err: "\<And>c rest st w e w1. I (c # rest) st w \<Longrightarrow>
        client_get_tweets en c w = (Inl e, w1) \<Longrightarrow> E e w1"
  shows "case res of Inr st' \<Rightarrow> I [] st' w' | Inl e \<Rightarrow> E e w'"
  using run inv
proof (induction cs arbitrary: st w)
  case Nil
  then show ?case by auto
next
  case (Cons c rest)
  obtain r w1 where g: "client_get_tweets en c w = (r, w1)"
    by (cases "client_get_tweets en c w")
  show ?case
  proof (cases r)
    case (Inl e)
    with g Cons.prems(1) have "res = Inl e" "w' = w1" by auto
    with err [OF Cons.prems(2)] g Inl show ?thesis by simp
  next
    case (Inr got)
    let ?st1 = "st\<lparr>cs_tweets := cs_tweets st @ tr_data got, cs_errors := cs_errors st @ tr_errors got\<rparr>"
    let ?w2 = "wr (cs_db ?st1) (log_event EvWriteFn w1)"
    from g Inr Cons.prems(1) have "fetch_chunks en wr rest ?st1 ?w2 = (res, w')"
      by (simp add: Let_def)
    moreover have "I rest ?st1 ?w2"
      using step [OF Cons.prems(2)] g Inr by simp
    ultimately show ?thesis by (rule Cons.IH)
  qed
qed

lemma closure_loop_rule:
  assumes run: "closure_loop en ex wr pos st w = Some (res, w')"
    and inv: "I pos st w"
    and scan: "\<And>pos st w st1 w1. I pos st w \<Longrightarrow>
        scan_tweets en ex wr [pos ..< length (cs_tweets st)] st w = Some (Inr st1, w1) \<Longrightarrow>
        J st1 w1"
    and scan_err: "\<And>pos st w e w1. I pos st w \<Longrightarrow>
        scan_tweets en ex wr [pos ..< length (cs_tweets st)] st w = Some (Inl e, w1) \<Longrightarrow> E e w1"
    and fetch: "\<And>st1 w1 st2 w2. J st1 w1 \<Longrightarrow> cs_batch st1 \<noteq> [] \<Longrightarrow>
        fetch_chunks en wr (chunks100 (cs_batch st1)) st1 w1 = (Inr st2, w2) \<Longrightarrow>
        I (length (cs_tweets st1)) (st2\<lparr>cs_batch := []\<rparr>) w2"
    and fetch_err: "\<And>st1 w1 e w2. J st1 w1 \<Longrightarrow> cs_batch st1 \<noteq> [] \<Longrightarrow>
        fetch_chunks en wr (chunks100 (cs_batch st1)) st1 w1 = (Inl e, w2) \<Longrightarrow> E e w2"
  shows "case res of Inr st' \<Rightarrow> J st' w' \<and> cs_batch st' = [] | Inl e \<Rightarrow> E e w'"
proof -
  let ?Q = "\<lambda>y. case fst y of Inr st' \<Rightarrow> J st' (snd y) \<and> cs_batch st' = [] | Inl e \<Rightarrow> E e (snd y)"
  have "en' = en \<longrightarrow> ex' = ex \<longrightarrow> wr' = wr \<longrightarrow> I pos st w \<longrightarrow> ?Q y"
    if "closure_loop en' ex' wr' pos st w = Some y" for en' ex' wr' y
    using that
  proof (rule closure_loop.raw_induct
      [rotated, where P = "\<lambda>en' ex' wr' pos st w y. en' = en \<longrightarrow> ex' = ex \<longrightarrow> wr' = wr \<longrightarrow> I pos st w \<longrightarrow> ?Q y"])
    fix loop en' ex' wr' pos st w y
    assume IH: "\<And>en' ex' wr' pos st w y. loop en' ex' wr' pos st w = Some y \<Longrightarrow>
        en' = en \<longrightarrow> ex' = ex \<longrightarrow> wr' = wr \<longrightarrow> I pos st w \<longrightarrow> ?Q y"
    assume body: "(case scan_tweets en' ex' wr' [pos ..< length (cs_tweets st)] st w of
        None \<Rightarrow> None
      | Some (Inl e, w1) \<Rightarrow> Some (Inl e, w1)
      | Some (Inr st1, w1) \<Rightarrow>
          if cs_batch st1 = [] then Some (Inr st1, w1)
          else
            (case fetch_chunks en' wr' (chunks100 (cs_batch st1)) st1 w1 of
               (Inl e, w2) \<Rightarrow> Some (Inl e, w2)
             | (Inr st2, w2) \<Rightarrow>
                 loop en' ex' wr' (length (cs_tweets st1)) (st2\<lparr>cs_batch := []\<rparr>) w2)) = Some y"
    show "en' = en \<longrightarrow> ex' = ex \<longrightarrow> wr' = wr \<longrightarrow> I pos st w \<longrightarrow> ?Q y"
    proof (intro impI)
      assume eq: "en' = en" "ex' = ex" "wr' = wr" and I: "I pos st w"
      show "?Q y"
      proof (cases "scan_tweets en ex wr [pos ..< length (cs_tweets st)] st w")
        case None
        with body eq show ?thesis by simp
      next
        case (Some p)
        obtain r w1 where p: "p = (r, w1)" by (cases p)
        show ?thesis
        proof (cases r)
          case (Inl e)
          with Some p body eq have "y = (Inl e, w1)" by simp
          with scan_err [OF I] Some p Inl show ?thesis by simp
        next
          case (Inr st1)
          have J: "J st1 w1" using scan [OF I] Some p Inr by simp
          show ?thesis
          proof (cases "cs_batch st1 = []")
            case True
            with Some p Inr body eq have "y = (Inr st1, w1)" by simp
            with J True show ?thesis by simp
          next
            case False
            obtain r2 w2 where f: "fetch_chunks en wr (chunks100 (cs_batch st1)) st1 w1 = (r2, w2)"
              by (cases "fetch_chunks en wr (chunks100 (cs_batch st1)) st1 w1")
            show ?thesis
            proof (cases r2)
              case (Inl e)
              with Some p Inr False f body eq have "y = (Inl e, w2)" by simp
              with fetch_err [OF J False] f Inl show ?thesis by simp
            next
              case (Inr st2)
              with Some p \<open>r = Inr st1\<close> False f body eq
              have "loop en ex wr (length (cs_tweets st1)) (st2\<lparr>cs_batch := []\<rparr>) w2 = Some y"
                by simp
              moreover have "I (length (cs_tweets st1)) (st2\<lparr>cs_batch := []\<rparr>) w2"
                using fetch [OF J False] f Inr by simp
              ultimately show ?thesis using IH by blast
            qed
          qed
        qed
      qed
    qed
  qed
  from this [OF run] inv show ?thesis by (cases res) simp_all
qed

section \<open>What the calls add to the trace\<close>

lemma scrape_calls_simps [simp]:
  "scrape_calls [] = []"
  "scrape_calls (ev # tr) = scrape_of ev @ scrape_calls tr"
  "scrape_calls (tr @ tr') = scrape_calls tr @ scrape_calls tr'"
  by (simp_all add: scrape_calls_def)

lemma sends_simps [simp]:
  "sends [] = []"
  "sends (ev # tr) = send_of ev @ sends tr"
  "sends (tr @ tr') = sends tr @ sends tr'"
  by (simp_all add: sends_def)

lemma lookups_simps [simp]:
  "lookups [] = []"
  "lookups (ev # tr) = lookup_of ev @ lookups tr"
  "lookups (tr @ tr') = lookups tr @ lookups tr'"
  by (simp_all add: lookups_def)

lemma fetched_simps [simp]:
  "fetched [] = []"
  "fetched (ev # tr) = fetched_of ev @ fetched tr"
  "fetched (tr @ tr') = fetched tr @ fetched tr'"
  by (simp_all add: fetched_def)

lemma fetched_errors_simps [simp]:
  "fetched_errors [] = []"
  "fetched_errors (ev # tr) = fetched_error_of ev @ fetched_errors tr"
  "fetched_errors (tr @ tr') = fetched_errors tr @ fetched_errors tr'"
  by (simp_all add: fetched_errors_def)

lemma writes_simps [simp]:
  "writes [] = []"
  "writes (ev # tr) = write_of ev @ writes tr"
  "writes (tr @ tr') = writes tr @ writes tr'"
  by (simp_all add: writes_def)

lemma since_append [simp]: "trace w' = trace w @ evs \<Longrightarrow> since w w' = evs"
  by (simp add: since_def)

lemma scrape_io_quiet:
  assumes "list_all scrape_io evs"
  shows "scrape_calls evs = []" "lookups evs = []" "fetched evs = []"
    "fetched_errors evs = []" "writes evs = []"
  using assms
proof (induction evs)
  case Nil
  {
    case 1 show ?case by simp
  next
    case 2 show ?case by simp
  next
    case 3 show ?case by simp
  next
    case 4 show ?case by simp
  next
    case 5 show ?case by simp
  }
next
  case (Cons ev evs)
  {
    case 1 with Cons show ?case by (cases ev) simp_all
  next
    case 2 with Cons show ?case by (cases ev) simp_all
  next
    case 3 with Cons show ?case by (cases ev) simp_all
  next
    case 4 with Cons show ?case by (cases ev) simp_all
  next
    case 5 with Cons show ?case by (cases ev) simp_all
  }
qed

lemma send_loop_effect:
  assumes "send_loop en tw g w = Some (r, w')"
  shows "\<exists>evs. trace w' = trace w @ evs \<and> list_all scrape_io evs \<and> evs \<noteq> []
      \<and> gen_last w' = gen_last w"
proof -
  let ?P = "\<lambda>(en::env) (tw::string) (g::string) w y.
      \<exists>evs. trace (snd y) = trace w @ evs \<and> list_all scrape_io evs \<and> evs \<noteq> []
        \<and> gen_last (snd y) = gen_last w"
  have "?P en tw g w y" if "send_loop en tw g w = Some y" for y
    using that
  proof (rule send_loop.raw_induct [rotated, where P = ?P])
    fix loop :: "env \<Rightarrow> string \<Rightarrow> string \<Rightarrow> world \<Rightarrow> ((exn + http_response) \<times> world) option"
      and en tw g w y
    assume IH: "\<And>en tw g w y. loop en tw g w = Some y \<Longrightarrow> ?P en tw g w y"
    assume body: "(case e_send en (trace w) tw g of
        Inl e \<Rightarrow> Some (Inl e, log_event (EvSend tw g) w)
      | Inr response \<Rightarrow>
          if status_code response \<noteq> 429
          then Some (Inr response, log_event (EvSend tw g) w)
          else
            (case x_rate_limit_reset response of
               NoHeader \<Rightarrow>
                 Some (Inl (KeyError ''x-rate-limit-reset''), log_event (EvSend tw g) w)
             | NotAFloat \<Rightarrow> Some (Inl ValueError, log_event (EvSend tw g) w)
             | ResetAt resume \<Rightarrow>
                 (case time_time en (log_event (EvSend tw g) w) of
                    (now, w2) \<Rightarrow>
                      if resume - now < 0 then Some (Inl ValueError, w2)
                      else
                        (case e_sleep en (trace w2) of
                           Some e \<Rightarrow> Some (Inl e, log_event (EvSleep (resume - now)) w2)
                         | None \<Rightarrow>
                             loop en tw g
                               (log_event (EvSleep (resume - now)) w2))))) = Some y"
    show "?P en tw g w y"
    proof (cases "\<exists>w1. loop en tw g w1 = Some y \<and> (\<exists>d. trace w1 = trace w @ [EvSend tw g, EvSleep d]) \<and> gen_last w1 = gen_last w")
      case True
      then obtain w1 d where l: "loop en tw g w1 = Some y" and t: "trace w1 = trace w @ [EvSend tw g, EvSleep d]"
        and gl: "gen_last w1 = gen_last w" by blast
      from IH [OF l] obtain evs where "trace (snd y) = trace w1 @ evs" "list_all scrape_io evs" "gen_last (snd y) = gen_last w1"
        by blast
      with t gl have "trace (snd y) = trace w @ ([EvSend tw g, EvSleep d] @ evs)
          \<and> list_all scrape_io ([EvSend tw g, EvSleep d] @ evs)
          \<and> [EvSend tw g, EvSleep d] @ evs \<noteq> [] \<and> gen_last (snd y) = gen_last w"
        by simp
      then show ?thesis by blast
    next
      case False
      with body have "(trace (snd y) = trace w @ [EvSend tw g] \<or> (\<exists>d. trace (snd y) = trace w @ [EvSend tw g, EvSleep d])) \<and> gen_last (snd y) = gen_last w"
        by (auto simp: log_event_def time_time_def split: sum.splits if_splits reset_header.splits option.splits)
      then show ?thesis
        by (elim conjE disjE exE) (rule exI [of _ "[EvSend tw g]"], simp, rule exI [of _ "[EvSend tw g, EvSleep d]" for d], simp)
    qed
  qed
  from this [OF assms] show ?thesis by simp
qed

lemma scrape_io_silent: "list_all scrape_io evs \<Longrightarrow> list_all silent evs"
proof (induction evs)
  case Nil
  show ?case by simp
next
  case (Cons ev evs)
  then show ?case by (cases ev) simp_all
qed

lemma silent_quiet:
  assumes "list_all silent evs"
  shows "scrape_calls evs = [] \<and> lookups evs = [] \<and> fetched evs = [] \<and> fetched_errors evs = []"
  using assms
proof (induction evs)
  case Nil
  show ?case by simp
next
  case (Cons ev evs)
  then show ?case by (cases ev) simp_all
qed

lemma flush_due_log [simp]: "flush_due en (log_event ev w) = flush_due en w"
  by (simp add: flush_due_def log_event_def split: option.splits)

lemma trace_log_event [simp]: "trace (log_event ev w) = trace w @ [ev]"
  by (simp add: log_event_def)

lemma write_gen_next_trace:
  "trace (write_gen_next en d w) = trace w @ (if flush_due en w then [EvWriteDb d] else [])"
  by (simp add: write_gen_next_def flush_due_def time_time_def log_event_def split: option.splits)

lemma write_fn_trace:
  "trace (write_gen_next en d (log_event EvWriteFn w)) =
     trace w @ EvWriteFn # (if flush_due en w then [EvWriteDb d] else [])"
  by (simp add: write_gen_next_trace)

lemma write_fn_silent:
  "\<exists>evs. trace (write_gen_next en d (log_event EvWriteFn w)) = trace w @ evs \<and> list_all silent evs"
  by (simp add: write_fn_trace)

lemma get_related_tweets_effect:
  assumes "get_related_tweets en tw g w = Some (r, w')"
  shows "\<exists>evs. trace w' = trace w @ evs \<and> list_all scrape_io evs \<and> evs \<noteq> []"
proof -
  from assms obtain r0 where "send_loop en tw g w = Some (r0, w')"
    by (auto simp: get_related_tweets_def split: option.splits)
  from send_loop_effect [OF this] show ?thesis by blast
qed

lemma get_guest_token_effect:
  "get_guest_token en w = (r, w') \<Longrightarrow> trace w' = trace w @ [EvGuest]"
  by (auto simp: get_guest_token_def)

lemma scrape_tweet_skip:
  "\<not> needs_scrape ex (cs_tweets st ! i) \<Longrightarrow>
     scrape_tweet en ex wr i st w = Some (Inr (get_list (scraped_refs (cs_tweets st ! i)), st), w)"
  by (simp add: scrape_tweet_def)

lemma scrape_tweet_ok:
  assumes needs: "needs_scrape ex (cs_tweets st ! i)"
    and run: "scrape_tweet en ex wr i st w = Some (Inr (scraped, st1), w1)"
  shows "scraped \<noteq> []"
    and "\<exists>tok. st1 = st\<lparr>cs_guest_token := Some tok,
            cs_tweets := (cs_tweets st)[i := (cs_tweets st ! i)\<lparr>scraped_refs := Some scraped\<rparr>]\<rparr>"
    and "\<exists>pre post. trace w1 = trace w @ pre @ EvScrape (tweet_id (cs_tweets st ! i)) # post
            \<and> list_all silent pre \<and> list_all scrape_io post"
proof -
  let ?tw = "cs_tweets st ! i"
  obtain rt wt where tok: "(if no_token (cs_guest_token st) then get_guest_token en w
        else (Inr (get_list (cs_guest_token st)), w)) = (rt, wt)"
    by (cases "if no_token (cs_guest_token st) then get_guest_token en w
        else (Inr (get_list (cs_guest_token st)), w)")
  from run needs tok obtain token where rt: "rt = Inr token"
    by (cases rt) (auto simp: scrape_tweet_def Let_def)
  from tok have pre: "\<exists>pre. trace wt = trace w @ pre \<and> list_all silent pre"
    by (auto simp: get_guest_token_def split: if_splits)
  from run needs tok rt
  have g: "get_related_tweets en (tweet_id ?tw) token (log_event (EvScrape (tweet_id ?tw)) wt)
      = Some (Inr scraped, w1)"
    and st1: "st1 = st\<lparr>cs_guest_token := Some token,
            cs_tweets := (cs_tweets st)[i := ?tw\<lparr>scraped_refs := Some scraped\<rparr>]\<rparr>"
    by (auto simp: scrape_tweet_def Let_def split: option.splits sum.splits if_splits)
  from g show "scraped \<noteq> []" by (rule get_related_tweets_nonempty)
  from st1 show "\<exists>tok. st1 = st\<lparr>cs_guest_token := Some tok,
            cs_tweets := (cs_tweets st)[i := ?tw\<lparr>scraped_refs := Some scraped\<rparr>]\<rparr>" by blast
  from get_related_tweets_effect [OF g] obtain post
    where "trace w1 = trace wt @ EvScrape (tweet_id ?tw) # post" "list_all scrape_io post"
    by auto
  moreover from pre obtain pre where "trace wt = trace w @ pre" "list_all silent pre"
    by blast
  ultimately have "trace w1 = trace w @ pre @ EvScrape (tweet_id ?tw) # post
      \<and> list_all silent pre \<and> list_all scrape_io post"
    by simp
  then show "\<exists>pre post. trace w1 = trace w @ pre @ EvScrape (tweet_id ?tw) # post
            \<and> list_all silent pre \<and> list_all scrape_io post"
    by blast
qed

lemma scrape_tweet_err:
  assumes run: "scrape_tweet en ex (write_gen_next en) i st w = Some (Inl e, w1)"
  shows "needs_scrape ex (cs_tweets st ! i)"
    and "\<exists>pre post. (trace w1 = trace w @ pre \<or> trace w1 = trace w @ pre @ EvScrape (tweet_id (cs_tweets st ! i)) # post)
            \<and> list_all silent pre \<and> list_all silent post"
proof -
  let ?tw = "cs_tweets st ! i"
  from run show needs: "needs_scrape ex ?tw"
    by (auto simp: scrape_tweet_def Let_def split: if_splits)
  obtain rt wt where tok: "(if no_token (cs_guest_token st) then get_guest_token en w
        else (Inr (get_list (cs_guest_token st)), w)) = (rt, wt)"
    by (cases "if no_token (cs_guest_token st) then get_guest_token en w
        else (Inr (get_list (cs_guest_token st)), w)")
  from tok have pre: "\<exists>pre. trace wt = trace w @ pre \<and> list_all silent pre"
    by (auto simp: get_guest_token_def split: if_splits)
  show "\<exists>pre post. (trace w1 = trace w @ pre \<or> trace w1 = trace w @ pre @ EvScrape (tweet_id ?tw) # post)
            \<and> list_all silent pre \<and> list_all silent post"
  proof (cases rt)
    case (Inl e')
    with run needs tok have "w1 = wt" by (auto simp: scrape_tweet_def Let_def)
    with pre show ?thesis by auto
  next
    case (Inr token)
    with run needs tok obtain w2
      where g: "get_related_tweets en (tweet_id ?tw) token (log_event (EvScrape (tweet_id ?tw)) wt)
          = Some (Inl e, w2)"
        and w1: "w1 = w2 \<or> w1 = write_gen_next en (cs_db (st\<lparr>cs_guest_token := Some token\<rparr>)) (log_event EvWriteFn w2)"
      by (auto simp: scrape_tweet_def Let_def split: option.splits sum.splits if_splits)
    from get_related_tweets_effect [OF g] obtain post
      where post: "trace w2 = trace wt @ EvScrape (tweet_id ?tw) # post" "list_all scrape_io post"
      by auto
    from w1 obtain post' where "trace w1 = trace w2 @ post'" "list_all silent post'"
      by (auto simp: write_fn_trace)
    with post pre scrape_io_silent [OF post(2)]
    have "\<exists>pre. trace w1 = trace w @ pre @ EvScrape (tweet_id ?tw) # (post @ post') \<and> list_all silent pre \<and> list_all silent (post @ post')"
      by auto
    then show ?thesis by blast
  qed
qed

lemma scan_tweet_ok:
  assumes run: "scan_tweet en ex (write_gen_next en) i st w = Some (Inr st', w')"
  shows "\<exists>scraped evs.
      trace w' = trace w @ evs \<and> lookups evs = [] \<and> fetched evs = [] \<and> fetched_errors evs = []
      \<and> cs_users st' = cs_users st \<and> cs_errors st' = cs_errors st
      \<and> (if needs_scrape ex (cs_tweets st ! i)
          then scraped \<noteq> []
             \<and> cs_tweets st' = (cs_tweets st)[i := (cs_tweets st ! i)\<lparr>scraped_refs := Some scraped\<rparr>]
             \<and> scrape_calls evs = [tweet_id (cs_tweets st ! i)]
          else scraped = get_list (scraped_refs (cs_tweets st ! i))
             \<and> cs_tweets st' = cs_tweets st
             \<and> scrape_calls evs = [])
      \<and> cs_batch st' = cs_batch st @ new_refs (cs_known st) (cs_tweets st' ! i) scraped
      \<and> cs_known st' = cs_known st \<union> set (new_refs (cs_known st) (cs_tweets st' ! i) scraped)"
proof -
  let ?tw = "cs_tweets st ! i"
  from run obtain scraped st1 w1
    where s: "scrape_tweet en ex (write_gen_next en) i st w = Some (Inr (scraped, st1), w1)"
      and st': "st' = st1\<lparr>cs_batch := cs_batch st1 @ new_refs (cs_known st1) (cs_tweets st1 ! i) scraped,
                         cs_known := cs_known st1 \<union> set (new_refs (cs_known st1) (cs_tweets st1 ! i) scraped)\<rparr>"
      and w': "w' = write_gen_next en (cs_db st') (log_event EvWriteFn w1)"
    by (auto simp: scan_tweet_def Let_def split: option.splits sum.splits)
  from w' obtain wevs where wevs: "trace w' = trace w1 @ wevs" "list_all silent wevs"
    using write_fn_silent by blast
  show ?thesis
  proof (cases "needs_scrape ex ?tw")
    case False
    with s have "scraped = get_list (scraped_refs ?tw)" "st1 = st" "w1 = w"
      by (auto simp: scrape_tweet_skip)
    with False st' wevs silent_quiet [OF wevs(2)] show ?thesis
      by (intro exI [of _ scraped] exI [of _ wevs]) simp
  next
    case True
    from scrape_tweet_ok [OF True s] obtain tok pre post
      where ne: "scraped \<noteq> []"
        and st1: "st1 = st\<lparr>cs_guest_token := Some tok,
            cs_tweets := (cs_tweets st)[i := ?tw\<lparr>scraped_refs := Some scraped\<rparr>]\<rparr>"
        and tr: "trace w1 = trace w @ pre @ EvScrape (tweet_id ?tw) # post"
        and sil: "list_all silent pre" "list_all scrape_io post"
      by blast
    let ?evs = "pre @ EvScrape (tweet_id ?tw) # post @ wevs"
    from tr wevs have "trace w' = trace w @ ?evs" by simp
    moreover from sil wevs have "lookups ?evs = []" "fetched ?evs = []" "fetched_errors ?evs = []"
      "scrape_calls ?evs = [tweet_id ?tw]"
      using silent_quiet [of pre] silent_quiet [of wevs] silent_quiet [OF scrape_io_silent, of post]
      by simp_all
    ultimately show ?thesis
      using True ne st1 st'
      by (intro exI [of _ scraped] exI [of _ ?evs]) simp
  qed
qed

lemma scan_tweet_err:
  assumes run: "scan_tweet en ex (write_gen_next en) i st w = Some (Inl e, w')"
  shows "\<exists>evs. trace w' = trace w @ evs \<and> lookups evs = [] \<and> fetched evs = []
      \<and> fetched_errors evs = []
      \<and> (scrape_calls evs = []
         \<or> needs_scrape ex (cs_tweets st ! i) \<and> scrape_calls evs = [tweet_id (cs_tweets st ! i)])"
proof -
  let ?tw = "cs_tweets st ! i"
  from run have s: "scrape_tweet en ex (write_gen_next en) i st w = Some (Inl e, w')"
    by (auto simp: scan_tweet_def Let_def split: option.splits sum.splits)
  from scrape_tweet_err [OF s] obtain pre post
    where needs: "needs_scrape ex ?tw"
      and tr: "trace w' = trace w @ pre \<or> trace w' = trace w @ pre @ EvScrape (tweet_id ?tw) # post"
      and sil: "list_all silent pre" "list_all silent post"
    by blast
  from tr show ?thesis
  proof
    assume "trace w' = trace w @ pre"
    with silent_quiet [OF sil(1)] show ?thesis by blast
  next
    let ?evs = "pre @ EvScrape (tweet_id ?tw) # post"
    assume "trace w' = trace w @ ?evs"
    moreover have "lookups ?evs = []" "fetched ?evs = []" "fetched_errors ?evs = []"
      "scrape_calls ?evs = [tweet_id ?tw]"
      using silent_quiet [OF sil(1)] silent_quiet [OF sil(2)] by simp_all
    ultimately show ?thesis using needs by blast
  qed
qed

section \<open>The calls of the scrape client follow the tweet list\<close>

lemma nth_of_drop_eq:
  assumes "drop i xs = drop i ys" "i < length xs" "length xs = length ys"
  shows "xs ! i = ys ! i"
  using assms by (metis hd_drop_conv_nth)

lemma drop_Suc_of_drop_eq:
  assumes "drop i xs = drop i ys"
  shows "drop (Suc i) xs = drop (Suc i) ys"
  using assms by (metis drop_Suc tl_drop)

lemma inv_scrape_step:
  assumes i: "i < length (cs_tweets st)"
    and inv: "inv_scrape ex tweets0 tr0 i st w"
    and run: "scan_tweet en ex (write_gen_next en) i st w = Some (Inr st', w')"
  shows "inv_scrape ex tweets0 tr0 (Suc i) st' w' \<and> length (cs_tweets st') = length (cs_tweets st)"
proof -
  from inv obtain new where new: "trace w = tr0 @ new"
    and len: "length (cs_tweets st) = length (tweets0 @ fetched new)"
    and scd: "list_all2 (scanned ex) (take i (tweets0 @ fetched new)) (take i (cs_tweets st))"
    and rest: "drop i (cs_tweets st) = drop i (tweets0 @ fetched new)"
    and calls: "scrape_calls new = map tweet_id (filter (needs_scrape ex) (take i (tweets0 @ fetched new)))"
    unfolding inv_scrape_def by blast
  define orig where "orig = tweets0 @ fetched new"
  note ctx = len scd rest calls
  note len = ctx(1) [folded orig_def] and scd = ctx(2) [folded orig_def]
    and rest = ctx(3) [folded orig_def] and calls = ctx(4) [folded orig_def]
  let ?orig = orig
  let ?tw = "cs_tweets st ! i"
  have tw: "?tw = ?orig ! i"
    using rest i len by (rule nth_of_drop_eq)
  have i': "i < length ?orig" using i len by simp
  from scan_tweet_ok [OF run] obtain scraped evs
    where tr: "trace w' = trace w @ evs" and f: "fetched evs = []"
      and eff: "if needs_scrape ex ?tw
          then scraped \<noteq> []
             \<and> cs_tweets st' = (cs_tweets st)[i := ?tw\<lparr>scraped_refs := Some scraped\<rparr>]
             \<and> scrape_calls evs = [tweet_id ?tw]
          else scraped = get_list (scraped_refs ?tw)
             \<and> cs_tweets st' = cs_tweets st
             \<and> scrape_calls evs = []"
    by blast
  have orig': "tweets0 @ fetched (new @ evs) = ?orig" using f by (simp add: orig_def)
  have len': "length (cs_tweets st') = length (cs_tweets st)"
    using eff by (simp split: if_splits)
  have take': "take i (cs_tweets st') = take i (cs_tweets st)"
    using eff by (simp split: if_splits)
  have drop': "drop (Suc i) (cs_tweets st') = drop (Suc i) (cs_tweets st)"
    using eff by (simp split: if_splits)
  have nth': "scanned ex (?orig ! i) (cs_tweets st' ! i)"
    using eff i tw by (auto simp: scanned_def split: if_splits)
  have "list_all2 (scanned ex) (take (Suc i) ?orig) (take (Suc i) (cs_tweets st'))"
    using scd nth' i i' len' take'
    by (simp add: take_Suc_conv_app_nth list_all2_appendI)
  moreover have "drop (Suc i) (cs_tweets st') = drop (Suc i) ?orig"
    using drop' drop_Suc_of_drop_eq [OF rest] by simp
  moreover have "scrape_calls (new @ evs) =
      map tweet_id (filter (needs_scrape ex) (take (Suc i) ?orig))"
    using calls eff i' tw by (simp add: take_Suc_conv_app_nth split: if_splits)
  moreover have "trace w' = tr0 @ (new @ evs)" using tr new by simp
  moreover have "Suc i \<le> length (cs_tweets st')" using i len' by simp
  moreover have "length (cs_tweets st') = length ?orig" using len len' by simp
  ultimately have "inv_scrape ex tweets0 tr0 (Suc i) st' w'"
    unfolding inv_scrape_def by (intro exI [of _ "new @ evs"]) (simp only: orig' simp_thms)
  with len' show ?thesis by simp
qed

lemma inv_scrape_step_err:
  assumes i: "i < length (cs_tweets st)"
    and inv: "inv_scrape ex tweets0 tr0 i st w"
    and run: "scan_tweet en ex (write_gen_next en) i st w = Some (Inl e, w')"
  shows "err_scrape ex tweets0 tr0 w'"
proof -
  from inv obtain new where new: "trace w = tr0 @ new"
    and len: "length (cs_tweets st) = length (tweets0 @ fetched new)"
    and rest: "drop i (cs_tweets st) = drop i (tweets0 @ fetched new)"
    and calls: "scrape_calls new = map tweet_id (filter (needs_scrape ex) (take i (tweets0 @ fetched new)))"
    unfolding inv_scrape_def by blast
  define orig where "orig = tweets0 @ fetched new"
  note ctx = len rest calls
  note len = ctx(1) [folded orig_def] and rest = ctx(2) [folded orig_def]
    and calls = ctx(3) [folded orig_def]
  let ?orig = orig
  let ?tw = "cs_tweets st ! i"
  have tw: "?tw = ?orig ! i"
    using rest i len by (rule nth_of_drop_eq)
  have i': "i < length ?orig" using i len by simp
  from scan_tweet_err [OF run] obtain evs
    where tr: "trace w' = trace w @ evs" and f: "fetched evs = []"
      and c: "scrape_calls evs = [] \<or> needs_scrape ex ?tw \<and> scrape_calls evs = [tweet_id ?tw]"
    by blast
  have tr': "trace w' = tr0 @ (new @ evs)" using tr new by simp
  have orig': "tweets0 @ fetched (new @ evs) = ?orig" using f by (simp add: orig_def)
  from c show ?thesis
  proof
    assume "scrape_calls evs = []"
    with calls have "scrape_calls (new @ evs) =
        map tweet_id (filter (needs_scrape ex) (take i (tweets0 @ fetched (new @ evs))))"
      unfolding orig' by simp
    with tr' show ?thesis unfolding err_scrape_def by blast
  next
    assume "needs_scrape ex ?tw \<and> scrape_calls evs = [tweet_id ?tw]"
    with calls i' tw have "scrape_calls (new @ evs) =
        map tweet_id (filter (needs_scrape ex) (take (Suc i) (tweets0 @ fetched (new @ evs))))"
      unfolding orig' by (simp add: take_Suc_conv_app_nth)
    with tr' show ?thesis unfolding err_scrape_def by blast
  qed
qed

lemma inv_scrape_scan:
  assumes inv: "inv_scrape ex tweets0 tr0 pos st w"
    and run: "scan_tweets en ex (write_gen_next en) [pos ..< length (cs_tweets st)] st w = Some (res, w')"
  shows "case res of
           Inr st' \<Rightarrow> inv_scrape ex tweets0 tr0 (length (cs_tweets st')) st' w'
         | Inl e \<Rightarrow> err_scrape ex tweets0 tr0 w'"
proof -
  let ?b = "length (cs_tweets st)"
  let ?I = "\<lambda>i st w. inv_scrape ex tweets0 tr0 i st w \<and> length (cs_tweets st) = ?b"
  from inv have le: "pos \<le> ?b" unfolding inv_scrape_def by blast
  have "case res of Inr st' \<Rightarrow> ?I ?b st' w' | Inl e \<Rightarrow> err_scrape ex tweets0 tr0 w'"
  proof (rule scan_tweets_rule [OF run le, where I = ?I])
    show "?I pos st w" using inv by simp
  next
    fix i st1 w1 st2 w2
    assume "i < ?b" "?I i st1 w1" "scan_tweet en ex (write_gen_next en) i st1 w1 = Some (Inr st2, w2)"
    then show "?I (Suc i) st2 w2" using inv_scrape_step [of i st1 ex tweets0 tr0 w1 en st2 w2] by simp
  next
    fix i st1 w1 e w2
    assume "i < ?b" "?I i st1 w1" "scan_tweet en ex (write_gen_next en) i st1 w1 = Some (Inl e, w2)"
    then show "err_scrape ex tweets0 tr0 w2" using inv_scrape_step_err [of i st1 ex tweets0 tr0 w1 en e w2] by simp
  qed
  then show ?thesis by (cases res) auto
qed

lemma client_get_tweets_trace:
  "client_get_tweets en c w = (r, w1) \<Longrightarrow> trace w1 = trace w @ [EvGetTweets c r]"
  by (auto simp: client_get_tweets_def)

lemma inv_scrape_fetch_step:
  assumes inv: "inv_scrape ex tweets0 tr0 pos st w"
    and get: "client_get_tweets en c w = (Inr got, w1)"
  shows "inv_scrape ex tweets0 tr0 pos
      (st\<lparr>cs_tweets := cs_tweets st @ tr_data got, cs_errors := cs_errors st @ tr_errors got\<rparr>)
      (write_gen_next en d (log_event EvWriteFn w1))"
proof -
  from inv obtain new where new: "trace w = tr0 @ new"
    and pos: "pos \<le> length (cs_tweets st)"
    and len: "length (cs_tweets st) = length (tweets0 @ fetched new)"
    and scd: "list_all2 (scanned ex) (take pos (tweets0 @ fetched new)) (take pos (cs_tweets st))"
    and rest: "drop pos (cs_tweets st) = drop pos (tweets0 @ fetched new)"
    and calls: "scrape_calls new = map tweet_id (filter (needs_scrape ex) (take pos (tweets0 @ fetched new)))"
    unfolding inv_scrape_def by blast
  define orig where "orig = tweets0 @ fetched new"
  note ctx = len scd rest calls
  note len = ctx(1) [folded orig_def] and scd = ctx(2) [folded orig_def]
    and rest = ctx(3) [folded orig_def] and calls = ctx(4) [folded orig_def]
  obtain wevs where wevs: "trace (write_gen_next en d (log_event EvWriteFn w1)) = trace w1 @ wevs"
      "list_all silent wevs"
    using write_fn_silent by blast
  let ?evs = "EvGetTweets c (Inr got) # wevs"
  have tr: "trace (write_gen_next en d (log_event EvWriteFn w1)) = tr0 @ (new @ ?evs)"
    using wevs new client_get_tweets_trace [OF get] by simp
  have orig': "tweets0 @ fetched (new @ ?evs) = orig @ tr_data got"
    using silent_quiet [OF wevs(2)] by (simp add: orig_def)
  have sc: "scrape_calls (new @ ?evs) = scrape_calls new"
    using silent_quiet [OF wevs(2)] by simp
  have pos': "pos \<le> length orig" using pos len by simp
  show ?thesis
    unfolding inv_scrape_def
    apply (intro exI [of _ "new @ ?evs"])
    apply (simp only: orig' sc tr simp_thms)
    using pos pos' len scd rest calls
    apply simp
    done
qed

lemma inv_scrape_fetch_err:
  assumes inv: "inv_scrape ex tweets0 tr0 pos st w"
    and get: "client_get_tweets en c w = (Inl e, w1)"
  shows "err_scrape ex tweets0 tr0 w1"
proof -
  from inv obtain new where new: "trace w = tr0 @ new"
    and calls: "scrape_calls new = map tweet_id (filter (needs_scrape ex) (take pos (tweets0 @ fetched new)))"
    unfolding inv_scrape_def by blast
  have "trace w1 = tr0 @ (new @ [EvGetTweets c (Inl e)])"
    using new client_get_tweets_trace [OF get] by simp
  moreover have "scrape_calls (new @ [EvGetTweets c (Inl e)]) =
      map tweet_id (filter (needs_scrape ex) (take pos (tweets0 @ fetched (new @ [EvGetTweets c (Inl e)]))))"
    using calls by simp
  ultimately show ?thesis unfolding err_scrape_def by blast
qed

lemma inv_scrape_batch [simp]:
  "inv_scrape ex tweets0 tr0 pos (st\<lparr>cs_batch := b\<rparr>) w = inv_scrape ex tweets0 tr0 pos st w"
  by (simp add: inv_scrape_def)

lemma inv_scrape_fetch:
  assumes inv: "inv_scrape ex tweets0 tr0 pos st w"
    and run: "fetch_chunks en (write_gen_next en) cs st w = (res, w')"
  shows "case res of
           Inr st' \<Rightarrow> inv_scrape ex tweets0 tr0 pos st' w'
         | Inl e \<Rightarrow> err_scrape ex tweets0 tr0 w'"
  by (rule fetch_chunks_rule [OF run, where I = "\<lambda>cs. inv_scrape ex tweets0 tr0 pos"])
    (use inv in \<open>auto intro: inv_scrape_fetch_step inv_scrape_fetch_err\<close>)

lemma inv_scrape_closure:
  assumes inv: "inv_scrape ex tweets0 tr0 pos st w"
    and run: "closure_loop en ex (write_gen_next en) pos st w = Some (res, w')"
  shows "case res of
           Inr st' \<Rightarrow> inv_scrape ex tweets0 tr0 (length (cs_tweets st')) st' w' \<and> cs_batch st' = []
         | Inl e \<Rightarrow> err_scrape ex tweets0 tr0 w'"
proof (rule closure_loop_rule [OF run, where I = "inv_scrape ex tweets0 tr0"
      and J = "\<lambda>st w. inv_scrape ex tweets0 tr0 (length (cs_tweets st)) st w"])
  show "inv_scrape ex tweets0 tr0 pos st w" by (rule inv)
next
  fix pos st w st1 w1
  assume "inv_scrape ex tweets0 tr0 pos st w"
    "scan_tweets en ex (write_gen_next en) [pos ..< length (cs_tweets st)] st w = Some (Inr st1, w1)"
  from inv_scrape_scan [OF this] show "inv_scrape ex tweets0 tr0 (length (cs_tweets st1)) st1 w1"
    by simp
next
  fix pos st w e w1
  assume "inv_scrape ex tweets0 tr0 pos st w"
    "scan_tweets en ex (write_gen_next en) [pos ..< length (cs_tweets st)] st w = Some (Inl e, w1)"
  from inv_scrape_scan [OF this] show "err_scrape ex tweets0 tr0 w1"
    by simp
next
  fix st1 w1 st2 w2
  assume "inv_scrape ex tweets0 tr0 (length (cs_tweets st1)) st1 w1"
    "fetch_chunks en (write_gen_next en) (chunks100 (cs_batch st1)) st1 w1 = (Inr st2, w2)"
  from inv_scrape_fetch [OF this]
  show "inv_scrape ex tweets0 tr0 (length (cs_tweets st1)) (st2\<lparr>cs_batch := []\<rparr>) w2"
    by simp
next
  fix st1 w1 e w2
  assume "inv_scrape ex tweets0 tr0 (length (cs_tweets st1)) st1 w1"
    "fetch_chunks en (write_gen_next en) (chunks100 (cs_batch st1)) st1 w1 = (Inl e, w2)"
  from inv_scrape_fetch [OF this] show "err_scrape ex tweets0 tr0 w2"
    by simp
qed

lemma inv_scrape_init: "inv_scrape ex (get_list (db_tweets data)) (trace w) 0 (closure_init data) w"
  by (simp add: inv_scrape_def closure_init_def)

text \<open>A run that ends normally: the tweet list at the end, and the calls made.\<close>

lemma closure_scrapes:
  assumes run: "do_reply_closure en data ex (write_gen_next en) w = Some (Inr data', w')"
  shows "list_all2 (scanned ex) (get_list (db_tweets data) @ fetched (since w w'))
           (get_list (db_tweets data'))"
    and "scrape_calls (since w w') =
           map tweet_id (filter (needs_scrape ex) (get_list (db_tweets data) @ fetched (since w w')))"
    and "\<exists>new. trace w' = trace w @ new"
proof -
  from run obtain st' where loop: "closure_loop en ex (write_gen_next en) 0 (closure_init data) w = Some (Inr st', w')"
    and data': "data' = cs_db st'"
    by (auto simp: do_reply_closure_def split: option.splits sum.splits)
  from inv_scrape_closure [OF inv_scrape_init loop]
  have "inv_scrape ex (get_list (db_tweets data)) (trace w) (length (cs_tweets st')) st' w'"
    by simp
  then obtain new where new: "trace w' = trace w @ new"
    and len: "length (cs_tweets st') = length (get_list (db_tweets data) @ fetched new)"
    and scd: "list_all2 (scanned ex) (take (length (cs_tweets st')) (get_list (db_tweets data) @ fetched new))
        (take (length (cs_tweets st')) (cs_tweets st'))"
    and calls: "scrape_calls new = map tweet_id (filter (needs_scrape ex)
        (take (length (cs_tweets st')) (get_list (db_tweets data) @ fetched new)))"
    unfolding inv_scrape_def by blast
  have s: "since w w' = new" using new by simp
  from new show "\<exists>new. trace w' = trace w @ new" by blast
  from scd len show "list_all2 (scanned ex) (get_list (db_tweets data) @ fetched (since w w'))
           (get_list (db_tweets data'))"
    unfolding s data' by (simp add: cs_db_def get_list_def)
  from calls len show "scrape_calls (since w w') =
           map tweet_id (filter (needs_scrape ex) (get_list (db_tweets data) @ fetched (since w w')))"
    unfolding s by simp
qed

text \<open>Any run that ends: the calls made are a beginning of those.\<close>

lemma closure_scrapes_any:
  assumes run: "do_reply_closure en data ex (write_gen_next en) w = Some (res, w')"
  shows "\<exists>k. scrape_calls (since w w') =
           map tweet_id (filter (needs_scrape ex) (take k (get_list (db_tweets data) @ fetched (since w w'))))"
proof -
  from run obtain res' where loop: "closure_loop en ex (write_gen_next en) 0 (closure_init data) w = Some (res', w')"
    by (auto simp: do_reply_closure_def split: option.splits sum.splits)
  have "err_scrape ex (get_list (db_tweets data)) (trace w) w'"
  proof (cases res')
    case (Inl e)
    with inv_scrape_closure [OF inv_scrape_init loop] show ?thesis by simp
  next
    case (Inr st')
    with inv_scrape_closure [OF inv_scrape_init loop]
    have "inv_scrape ex (get_list (db_tweets data)) (trace w) (length (cs_tweets st')) st' w'"
      by simp
    then show ?thesis unfolding inv_scrape_def err_scrape_def by blast
  qed
  then obtain new k where "trace w' = trace w @ new"
    "scrape_calls new = map tweet_id (filter (needs_scrape ex) (take k (get_list (db_tweets data) @ fetched new)))"
    unfolding err_scrape_def by blast
  then show ?thesis by auto
qed

section \<open>Claim C1: every tweet of an expanded author is scraped, once\<close>





lemma c1_run:
  "do_reply_closure c1_env c1_data {''7''} (write_gen_next c1_env) world0 =
     Some (Inr \<lparr>db_users = Some [],
                db_tweets = Some [mk_tweet ''100'' ''7'' [] (Some [''tweet_was_deleted''])],
                db_errors = Some []\<rparr>,
           \<lparr>trace = [EvGuest, EvScrape ''100'', EvSend ''100'' ''g'', EvSleep 5,
                     EvSend ''100'' ''g'', EvWriteFn],
            clock_reads = 3, gen_last = Some 0\<rparr>)"
  unfolding do_reply_closure_def
  apply (subst closure_loop.simps)
  apply (simp add: closure_init_def c1_data_def c1_env_def quiet_env_def mk_tweet_def get_list_def
      world0_def scan_tweet_def scrape_tweet_def needs_scrape_def no_token_def get_guest_token_def
      get_related_tweets_def send_loop.simps log_event_def time_time_def scrape_result_def
      ok_response_def new_refs_def get_known_def write_gen_next_def cs_db_def)
  done





section \<open>Claims C2 and C10: sentinels and lists that are never empty\<close>

lemma isdigit_sentinels [simp]:
  "\<not> isdigit ''tweet_was_deleted''" "\<not> isdigit ''couldnt_scrape''"
  by (simp_all add: isdigit_def)

lemma scrape_result_deleted_iff:
  assumes ok: "status_code response = 200"
    and js: "body response = Some j"
    and dat: "getitem j ''data'' = Inr d"
    and numeric: "\<forall>ids. scrape_entries j = Inr ids \<longrightarrow> list_all isdigit ids"
  shows "scrape_result response = Inr [''tweet_was_deleted''] \<longleftrightarrow> \<not> py_bool d"
    and "scrape_result response = Inr [''couldnt_scrape''] \<longleftrightarrow> py_bool d \<and> scrape_entries j = Inr []"
  using assms by (auto simp: scrape_result_def split: sum.splits)

lemma send_loop_result:
  "send_loop en tw g w = Some (Inr response, w1) \<Longrightarrow>
     get_related_tweets en tw g w = Some (scrape_result response, w1)"
  by (simp add: get_related_tweets_def)

lemma stored_not_needed: "scraped_refs tw = Some r \<Longrightarrow> r \<noteq> [] \<Longrightarrow> \<not> needs_scrape ex tw"
  by (simp add: needs_scrape_def get_list_def)

lemma not_scraped_again:
  assumes run: "do_reply_closure en data ex (write_gen_next en) w = Some (res, w')"
    and tw: "tw \<in> set (get_list (db_tweets data))"
    and stored: "\<not> needs_scrape ex tw"
    and uniq: "distinct (map tweet_id (get_list (db_tweets data) @ fetched (since w w')))"
  shows "tweet_id tw \<notin> set (scrape_calls (since w w'))"
proof
  define orig where "orig = get_list (db_tweets data) @ fetched (since w w')"
  assume "tweet_id tw \<in> set (scrape_calls (since w w'))"
  with closure_scrapes_any [OF run] obtain k
    where "tweet_id tw \<in> set (map tweet_id (filter (needs_scrape ex) (take k orig)))"
    unfolding orig_def by auto
  then obtain tw' where tw': "tw' \<in> set (take k orig)" "needs_scrape ex tw'" "tweet_id tw' = tweet_id tw"
    by auto
  from tw'(1) have "tw' \<in> set orig" by (rule in_set_takeD)
  moreover from tw have "tw \<in> set orig" by (simp add: orig_def)
  moreover from uniq have "distinct (map tweet_id orig)" by (simp only: orig_def)
  ultimately have "tw' = tw"
    using tw'(3) by (meson distinct_map inj_onD)
  with tw'(2) stored show False by simp
qed

lemma scrape_entries_no_entries: "scrape_entries no_entries_json = Inr []"
  by (simp add: scrape_entries_def no_entries_json_def)

lemma c2w_send:
  "send_loop c2w_env ''888'' ''g'' world0 =
     Some (Inr (ok_response no_entries_json), log_event (EvSend ''888'' ''g'') world0)"
  by (simp add: send_loop.simps c2w_env_def quiet_env_def ok_response_def)

lemma c2w_result: "scrape_result (ok_response no_entries_json) = Inr [''couldnt_scrape'']"
proof -
  have "getitem no_entries_json ''data'' =
      Inr (JObj [(''threaded_conversation_with_injections_v2'',
        JObj [(''instructions'', JArr [JObj [(''entries'', JArr [])]])])])"
    by (simp add: no_entries_json_def)
  then show ?thesis
    by (simp add: scrape_result_def ok_response_def scrape_entries_no_entries)
qed

lemma c2w_run:
  "do_reply_closure quiet_env c2w_data {''7''} (write_gen_next quiet_env) world0 =
     Some (Inr c2w_data, \<lparr>trace = [EvWriteFn], clock_reads = 2, gen_last = Some 0\<rparr>)"
  unfolding do_reply_closure_def
  apply (subst closure_loop.simps)
  apply (simp add: closure_init_def c2w_data_def quiet_env_def mk_tweet_def get_list_def
      world0_def scan_tweet_def scrape_tweet_def needs_scrape_def
      log_event_def time_time_def new_refs_def get_known_def write_gen_next_def cs_db_def)
  done

text \<open>
  Claim C2, as stated, fails: a response that carries no data payload at all, the JSON
  object \<^verbatim>\<open>{}\<close>, does not make \<^verbatim>\<open>get_related_tweets\<close> return the deleted sentinel.
  \<^verbatim>\<open>response_json["data"]\<close> raises \<^verbatim>\<open>KeyError\<close>, and nothing is returned or stored.
\<close>

theorem no_data_member_raises:
  "get_related_tweets c2_env ''999'' ''g'' world0 =
     Some (Inl (KeyError ''data''), \<lparr>trace = [EvSend ''999'' ''g''], clock_reads = 0, gen_last = None\<rparr>)"
  by (simp add: get_related_tweets_def send_loop.simps c2_env_def quiet_env_def ok_response_def
      scrape_result_def log_event_def world0_def)

text \<open>
  Claim C2, amended. Let the scrape response have status 200 and a JSON body with a
  \<^verbatim>\<open>data\<close> member \<open>d\<close>, and let the ids scraped from it be numeric, as tweet ids are. Then
  \<^verbatim>\<open>get_related_tweets\<close> returns the list of the deleted sentinel exactly when \<open>d\<close> is empty
  (false in Python's sense: \<^verbatim>\<open>null\<close>, \<^verbatim>\<open>{}\<close>, \<^verbatim>\<open>[]\<close>, ...), and the list of the
  could-not-scrape sentinel exactly when \<open>d\<close> is not empty and the document parses to no
  tweet id. And a tweet stored with either sentinel list is not scraped again: in any run
  of \<^verbatim>\<open>do_reply_closure\<close> that ends, normally or not, on a database that holds the tweet,
  \<^verbatim>\<open>get_related_tweets\<close> is never called for its id, the ids of the stored and fetched
  tweets being distinct.
\<close>

theorem sentinel_results:
  assumes sent: "send_loop en tweet g w = Some (Inr response, w1)"
    and ok: "status_code response = 200"
    and js: "body response = Some j"
    and dat: "getitem j ''data'' = Inr d"
    and numeric: "\<forall>ids. scrape_entries j = Inr ids \<longrightarrow> list_all isdigit ids"
    and run: "do_reply_closure en' data ex (write_gen_next en') w2 = Some (res, w2')"
    and tw: "tw \<in> set (get_list (db_tweets data))"
    and stored: "scraped_refs tw = Some [''tweet_was_deleted'']
               \<or> scraped_refs tw = Some [''couldnt_scrape'']"
    and uniq: "distinct (map tweet_id (get_list (db_tweets data) @ fetched (since w2 w2')))"
  shows "(get_related_tweets en tweet g w = Some (Inr [''tweet_was_deleted''], w1) \<longleftrightarrow> \<not> py_bool d)
       \<and> (get_related_tweets en tweet g w = Some (Inr [''couldnt_scrape''], w1)
            \<longleftrightarrow> py_bool d \<and> scrape_entries j = Inr [])
       \<and> tweet_id tw \<notin> set (scrape_calls (since w2 w2'))"
proof -
  note iff = scrape_result_deleted_iff [OF ok js dat numeric]
  have res: "get_related_tweets en tweet g w = Some (scrape_result response, w1)"
    using sent by (rule send_loop_result)
  from stored have "\<not> needs_scrape ex tw"
    by (auto simp: needs_scrape_def get_list_def)
  from not_scraped_again [OF run tw this uniq]
  have "tweet_id tw \<notin> set (scrape_calls (since w2 w2'))" .
  with iff res show ?thesis by simp
qed

text \<open>
  Both hypotheses hold somewhere: the response with no entries gives the could-not-scrape
  sentinel, and a later run on the database that stores it makes no call for tweet 888.
\<close>

theorem sentinel_results_witness:
  "send_loop c2w_env ''888'' ''g'' world0 =
     Some (Inr (ok_response no_entries_json), log_event (EvSend ''888'' ''g'') world0)
   \<and> get_related_tweets c2w_env ''888'' ''g'' world0 =
     Some (Inr [''couldnt_scrape''], log_event (EvSend ''888'' ''g'') world0)
   \<and> get_related_tweets c2w_env ''888'' ''g'' world0 \<noteq>
     Some (Inr [''tweet_was_deleted''], log_event (EvSend ''888'' ''g'') world0)
   \<and> do_reply_closure quiet_env c2w_data {''7''} (write_gen_next quiet_env) world0 =
     Some (Inr c2w_data, \<lparr>trace = [EvWriteFn], clock_reads = 2, gen_last = Some 0\<rparr>)
   \<and> ''888'' \<notin> set (scrape_calls
        (since world0 \<lparr>trace = [EvWriteFn], clock_reads = 2, gen_last = Some 0\<rparr>))"
proof -
  have dat: "getitem no_entries_json ''data'' =
      Inr (JObj [(''threaded_conversation_with_injections_v2'',
        JObj [(''instructions'', JArr [JObj [(''entries'', JArr [])]])])])"
    by (simp add: no_entries_json_def)
  have numeric: "\<forall>ids. scrape_entries no_entries_json = Inr ids \<longrightarrow> list_all isdigit ids"
    by (simp add: scrape_entries_no_entries)
  have tw: "mk_tweet ''888'' ''7'' [] (Some [''couldnt_scrape'']) \<in> set (get_list (db_tweets c2w_data))"
    by (simp add: c2w_data_def get_list_def)
  have stored: "scraped_refs (mk_tweet ''888'' ''7'' [] (Some [''couldnt_scrape''])) = Some [''tweet_was_deleted'']
      \<or> scraped_refs (mk_tweet ''888'' ''7'' [] (Some [''couldnt_scrape''])) = Some [''couldnt_scrape'']"
    by (simp add: mk_tweet_def)
  have uniq: "distinct (map tweet_id (get_list (db_tweets c2w_data)
      @ fetched (since world0 \<lparr>trace = [EvWriteFn], clock_reads = 2, gen_last = Some 0\<rparr>)))"
    by (simp add: c2w_data_def get_list_def since_def world0_def)
  from sentinel_results [OF c2w_send _ _ dat numeric c2w_run tw stored uniq]
  show ?thesis
    using c2w_send c2w_run
    by (simp add: ok_response_def scrape_entries_no_entries mk_tweet_def)
qed

text \<open>
  Claim C10. \<^verbatim>\<open>get_related_tweets\<close> never returns an empty list. After a run of
  \<^verbatim>\<open>do_reply_closure\<close> that ends normally, every record of the tweet list is either as it
  was stored or fetched, or it has been given \<^verbatim>\<open>scraped_refs\<close> that are not empty; so every
  value the program stores is a list that is not empty. \<^verbatim>\<open>get_related_tweets\<close> was called
  exactly for the records that satisfied the loop's test, in their order. A record whose
  stored list is not empty fails that test, and the test does not tell an empty list from
  an absent one.
\<close>

theorem scraped_refs_never_empty:
  assumes got: "get_related_tweets en0 tweet g w0 = Some (Inr refs, w0')"
    and run: "do_reply_closure en data ex (write_gen_next en) w = Some (Inr data', w')"
  shows "refs \<noteq> []
       \<and> list_all2 (\<lambda>orig tw. tw = orig \<or> (\<exists>r. r \<noteq> [] \<and> tw = orig\<lparr>scraped_refs := Some r\<rparr>))
           (get_list (db_tweets data) @ fetched (since w w')) (get_list (db_tweets data'))
       \<and> scrape_calls (since w w') =
           map tweet_id (filter (needs_scrape ex) (get_list (db_tweets data) @ fetched (since w w')))
       \<and> (\<forall>tw r. scraped_refs tw = Some r \<and> r \<noteq> [] \<longrightarrow> \<not> needs_scrape ex tw)
       \<and> (\<forall>tw. needs_scrape ex (tw\<lparr>scraped_refs := Some []\<rparr>)
                = needs_scrape ex (tw\<lparr>scraped_refs := None\<rparr>))"
proof -
  have "list_all2 (\<lambda>orig tw. tw = orig \<or> (\<exists>r. r \<noteq> [] \<and> tw = orig\<lparr>scraped_refs := Some r\<rparr>))
      (get_list (db_tweets data) @ fetched (since w w')) (get_list (db_tweets data'))"
    by (rule list_all2_mono [OF closure_scrapes(1) [OF run]]) (auto simp: scanned_def split: if_splits)
  moreover have "\<forall>tw. needs_scrape ex (tw\<lparr>scraped_refs := Some []\<rparr>)
      = needs_scrape ex (tw\<lparr>scraped_refs := None\<rparr>)"
    by (simp add: needs_scrape_def get_list_def)
  ultimately show ?thesis
    using get_related_tweets_nonempty [OF got] closure_scrapes(2) [OF run]
    by (auto simp: stored_not_needed)
qed

text \<open>
  Both hypotheses hold somewhere: the response with no entries is answered by a sentinel
  list, and the run of claim C1 stores a sentinel list on tweet 100 after one call.
\<close>

theorem scraped_refs_never_empty_witness:
  "get_related_tweets c2w_env ''888'' ''g'' world0 =
     Some (Inr [''couldnt_scrape''], log_event (EvSend ''888'' ''g'') world0)
   \<and> [''couldnt_scrape''] \<noteq> []
   \<and> do_reply_closure c1_env c1_data {''7''} (write_gen_next c1_env) world0 = Some (Inr c1_final, c1_world)
   \<and> get_list (db_tweets c1_final) = [mk_tweet ''100'' ''7'' [] (Some [''tweet_was_deleted''])]
   \<and> scrape_calls (since world0 c1_world) = [''100'']"
proof -
  have got: "get_related_tweets c2w_env ''888'' ''g'' world0 =
      Some (Inr [''couldnt_scrape''], log_event (EvSend ''888'' ''g'') world0)"
    by (simp add: send_loop_result [OF c2w_send] c2w_result)
  have run: "do_reply_closure c1_env c1_data {''7''} (write_gen_next c1_env) world0 =
      Some (Inr c1_final, c1_world)"
    using c1_run by (simp add: c1_final_def c1_world_def)
  from scraped_refs_never_empty [OF got run] got run show ?thesis
    by (simp add: c1_final_def c1_world_def c1_data_def get_list_def since_def world0_def
        mk_tweet_def needs_scrape_def)
qed

section \<open>Claim C6: no id is looked up twice\<close>

















lemma c6w_run:
  "do_reply_closure quiet_env c6w_data {} (write_gen_next quiet_env) world0 = Some (Inr c6w_data, c6w_world)"
  unfolding do_reply_closure_def
  apply (subst closure_loop.simps)
  apply (simp add: closure_init_def c6w_data_def c6w_world_def quiet_env_def mk_tweet_def get_list_def
      world0_def scan_tweet_def scrape_tweet_def needs_scrape_def
      log_event_def time_time_def new_refs_def get_known_def write_gen_next_def cs_db_def
      chunks100_short client_get_tweets_def)
  apply (subst closure_loop.simps)
  apply (simp add: cs_db_def)
  done




section \<open>Claim C4: checkpoints and the ten seconds of \<^verbatim>\<open>write_gen\<close>\<close>

lemma scrape_io_no_checkpoint:
  "list_all scrape_io evs \<Longrightarrow> list_all (\<lambda>ev. \<not> checkpoint_event ev) evs"
proof (induction evs)
  case Nil
  show ?case by simp
next
  case (Cons ev evs)
  then show ?case by (cases ev) simp_all
qed

lemma scrape_tweet_no_checkpoint:
  assumes run: "scrape_tweet en ex wr i st w = Some (Inr (scraped, st1), w1)"
  shows "\<exists>evs. trace w1 = trace w @ evs \<and> list_all (\<lambda>ev. \<not> checkpoint_event ev) evs"
proof (cases "needs_scrape ex (cs_tweets st ! i)")
  case False
  with run have "w1 = w" by (auto simp: scrape_tweet_skip)
  then show ?thesis by simp
next
  case True
  let ?tw = "cs_tweets st ! i"
  obtain rt wt where tok: "(if no_token (cs_guest_token st) then get_guest_token en w
        else (Inr (get_list (cs_guest_token st)), w)) = (rt, wt)"
    by (cases "if no_token (cs_guest_token st) then get_guest_token en w
        else (Inr (get_list (cs_guest_token st)), w)")
  from run True tok obtain token where rt: "rt = Inr token"
    by (cases rt) (auto simp: scrape_tweet_def Let_def)
  from tok have pre: "trace wt = trace w \<or> trace wt = trace w @ [EvGuest]"
    by (auto simp: get_guest_token_def split: if_splits)
  from run True tok rt
  have g: "get_related_tweets en (tweet_id ?tw) token (log_event (EvScrape (tweet_id ?tw)) wt)
      = Some (Inr scraped, w1)"
    by (auto simp: scrape_tweet_def Let_def split: option.splits sum.splits if_splits)
  from get_related_tweets_effect [OF g] obtain post
    where post: "trace w1 = trace wt @ EvScrape (tweet_id ?tw) # post" "list_all scrape_io post"
    by auto
  from pre show ?thesis
  proof
    assume "trace wt = trace w"
    with post scrape_io_no_checkpoint [OF post(2)]
    have "trace w1 = trace w @ (EvScrape (tweet_id ?tw) # post)
        \<and> list_all (\<lambda>ev. \<not> checkpoint_event ev) (EvScrape (tweet_id ?tw) # post)"
      by simp
    then show ?thesis by blast
  next
    assume "trace wt = trace w @ [EvGuest]"
    with post scrape_io_no_checkpoint [OF post(2)]
    have "trace w1 = trace w @ (EvGuest # EvScrape (tweet_id ?tw) # post)
        \<and> list_all (\<lambda>ev. \<not> checkpoint_event ev) (EvGuest # EvScrape (tweet_id ?tw) # post)"
      by simp
    then show ?thesis by blast
  qed
qed

lemma c4_run:
  "do_reply_closure quiet_env c4_data {''4''} (write_gen_next quiet_env) world0 = Some (Inr c4_final, c4_world)"
  unfolding do_reply_closure_def
  apply (subst closure_loop.simps)
  apply (simp add: closure_init_def c4_data_def c4_final_def c4_world_def quiet_env_def mk_tweet_def get_list_def
      world0_def scan_tweet_def scrape_tweet_def needs_scrape_def no_token_def get_guest_token_def
      get_related_tweets_def send_loop.simps log_event_def time_time_def scrape_result_def
      ok_response_def new_refs_def get_known_def write_gen_next_def cs_db_def upt_rec)
  done

text \<open>
  Claim C4, as stated, fails: in this run two tweets are processed and given their
  \<^verbatim>\<open>scraped_refs\<close>, \<^verbatim>\<open>write_fn\<close> is called after each, and the database is never written,
  because no more than ten seconds pass on the clock. An abrupt end after the second tweet
  loses the work of both.
\<close>

theorem two_tweets_no_flush:
  "do_reply_closure quiet_env c4_data {''4''} (write_gen_next quiet_env) world0 = Some (Inr c4_final, c4_world)
   \<and> scrape_calls (since world0 c4_world) = [''401'', ''402'']
   \<and> writes (since world0 c4_world) = []"
  using c4_run by (simp add: since_def world0_def c4_world_def)

text \<open>
  Claim C4, amended. In the reply-closure loop \<^verbatim>\<open>write_fn\<close> is called after processing each
  tweet: the processing of a tweet makes no checkpoint of its own, and ends with one call
  of \<^verbatim>\<open>write_fn\<close> on the updated data. With the \<^verbatim>\<open>write_fn\<close> of \<^verbatim>\<open>main\<close> that call writes the
  database to the store only when the test \<^verbatim>\<open>now - last > 10\<close> of \<^verbatim>\<open>write_gen\<close> holds, that
  is, when more than ten seconds have passed since the last write (or since the first
  call); otherwise nothing is written.
\<close>

theorem write_fn_after_each_tweet:
  assumes run: "scan_tweet en ex (write_gen_next en) i st w = Some (Inr st', w')"
  shows "\<exists>w1 evs. trace w1 = trace w @ evs
           \<and> list_all (\<lambda>ev. \<not> checkpoint_event ev) evs
           \<and> w' = write_gen_next en (cs_db st') (log_event EvWriteFn w1)
           \<and> trace w' = trace w1 @ EvWriteFn # (if flush_due en w1 then [EvWriteDb (cs_db st')] else [])"
proof -
  from run obtain scraped st1 w1
    where s: "scrape_tweet en ex (write_gen_next en) i st w = Some (Inr (scraped, st1), w1)"
      and w': "w' = write_gen_next en (cs_db st') (log_event EvWriteFn w1)"
    by (auto simp: scan_tweet_def Let_def split: option.splits sum.splits)
  from scrape_tweet_no_checkpoint [OF s] obtain evs
    where "trace w1 = trace w @ evs" "list_all (\<lambda>ev. \<not> checkpoint_event ev) evs"
    by blast
  with w' write_fn_trace [of en "cs_db st'" w1] show ?thesis by blast
qed

text \<open>
  With a clock that advances 11 seconds per reading, the tweet 300 is processed and the
  call of \<^verbatim>\<open>write_fn\<close> writes the database.
\<close>

theorem write_fn_after_each_tweet_witness:
  "scan_tweet c4w_env {} (write_gen_next c4w_env) 0 (closure_init c6w_data) world0 =
     Some (Inr ((closure_init c6w_data)\<lparr>cs_batch := [''299''],
                  cs_known := {''300'', ''couldnt_scrape'', ''tweet_was_deleted'', ''299''}\<rparr>),
           \<lparr>trace = [EvWriteFn, EvWriteDb c6w_data], clock_reads = 2, gen_last = Some 11\<rparr>)
   \<and> flush_due c4w_env world0"
proof -
  have run: "scan_tweet c4w_env {} (write_gen_next c4w_env) 0 (closure_init c6w_data) world0 =
     Some (Inr ((closure_init c6w_data)\<lparr>cs_batch := [''299''],
                  cs_known := {''300'', ''couldnt_scrape'', ''tweet_was_deleted'', ''299''}\<rparr>),
           \<lparr>trace = [EvWriteFn, EvWriteDb c6w_data], clock_reads = 2, gen_last = Some 11\<rparr>)"
    by (auto simp add: closure_init_def c6w_data_def c4w_env_def quiet_env_def mk_tweet_def get_list_def
      world0_def scan_tweet_def scrape_tweet_def needs_scrape_def
      log_event_def time_time_def new_refs_def get_known_def write_gen_next_def cs_db_def)
  have due: "flush_due c4w_env world0"
    by (simp add: flush_due_def world0_def c4w_env_def quiet_env_def)
  from write_fn_after_each_tweet [OF run] run due show ?thesis by simp
qed

section \<open>Claim C5: an interruption while scraping\<close>











section \<open>Claim C3: the write of the database is atomic\<close>


lemma file_states_nonempty [simp]: "file_states ops fs \<noteq> []"
  by (cases ops) simp_all



















section \<open>Further properties: the size of lookups, and the rate-limit loop\<close>

lemma inv_size_scan:
  assumes inv: "inv_size tr0 w"
    and run: "scan_tweets en ex (write_gen_next en) idx st w = Some (res, w')"
  shows "inv_size tr0 w'"
  using run inv
proof (induction idx arbitrary: st w)
  case Nil
  then show ?case by simp
next
  case (Cons i rest)
  show ?case
  proof (cases "scan_tweet en ex (write_gen_next en) i st w")
    case None
    with Cons.prems show ?thesis by simp
  next
    case (Some p)
    obtain r w1 where p: "p = (r, w1)" by (cases p)
    from Cons.prems(2) obtain new where new: "trace w = tr0 @ new" "list_all sized (lookups new)"
      unfolding inv_size_def by blast
    show ?thesis
    proof (cases r)
      case (Inl e)
      with Some p Cons.prems have w': "w' = w1" by simp
      from scan_tweet_err [of en ex i st w e w1] Some p Inl obtain evs
        where "trace w1 = trace w @ evs" "lookups evs = []" by auto
      with new w' have "trace w' = tr0 @ (new @ evs) \<and> list_all sized (lookups (new @ evs))"
        by simp
      then show ?thesis unfolding inv_size_def by blast
    next
      case (Inr st1)
      with Some p Cons.prems
      have run': "scan_tweets en ex (write_gen_next en) rest st1 w1 = Some (res, w')" by simp
      from scan_tweet_ok [of en ex i st w st1 w1] Some p Inr obtain evs
        where "trace w1 = trace w @ evs" "lookups evs = []" by auto
      with new have "trace w1 = tr0 @ (new @ evs) \<and> list_all sized (lookups (new @ evs))"
        by simp
      then have "inv_size tr0 w1" unfolding inv_size_def by blast
      with run' show ?thesis by (rule Cons.IH)
    qed
  qed
qed

lemma inv_size_fetch:
  assumes inv: "inv_size tr0 w"
    and cs: "list_all sized cs"
    and run: "fetch_chunks en (write_gen_next en) cs st w = (res, w')"
  shows "inv_size tr0 w'"
  using run inv cs
proof (induction cs arbitrary: st w)
  case Nil
  then show ?case by simp
next
  case (Cons c rest)
  obtain r w1 where g: "client_get_tweets en c w = (r, w1)"
    by (cases "client_get_tweets en c w")
  from Cons.prems(2) obtain new where new: "trace w = tr0 @ new" "list_all sized (lookups new)"
    unfolding inv_size_def by blast
  have w1: "trace w1 = tr0 @ (new @ [EvGetTweets c r])"
    using client_get_tweets_trace [OF g] new by simp
  have l1: "list_all sized (lookups (new @ [EvGetTweets c r]))"
    using new Cons.prems(3) by simp
  show ?case
  proof (cases r)
    case (Inl e)
    with g Cons.prems(1) have "w' = w1" by simp
    with w1 l1 show ?thesis unfolding inv_size_def by blast
  next
    case (Inr got)
    let ?st1 = "st\<lparr>cs_tweets := cs_tweets st @ tr_data got, cs_errors := cs_errors st @ tr_errors got\<rparr>"
    let ?w2 = "write_gen_next en (cs_db ?st1) (log_event EvWriteFn w1)"
    from g Inr Cons.prems(1) have run': "fetch_chunks en (write_gen_next en) rest ?st1 ?w2 = (res, w')"
      by (simp add: Let_def)
    obtain wevs where wevs: "trace ?w2 = trace w1 @ wevs" "list_all silent wevs"
      using write_fn_silent by blast
    have "trace ?w2 = tr0 @ (new @ [EvGetTweets c r] @ wevs)
        \<and> list_all sized (lookups (new @ [EvGetTweets c r] @ wevs))"
      using wevs w1 l1 silent_quiet [OF wevs(2)] by simp
    then have "inv_size tr0 ?w2" unfolding inv_size_def by blast
    from run' this show ?thesis
      using Cons.prems(3) by (intro Cons.IH) simp_all
  qed
qed

lemma chunks100_sized: "list_all sized (chunks100 xs)"
  using chunks100_bound [of _ xs] by (auto simp: list_all_iff sized_def)

lemma inv_size_closure:
  assumes run: "closure_loop en ex (write_gen_next en) pos st w = Some (res, w')"
    and inv: "inv_size tr0 w"
  shows "inv_size tr0 w'"
proof -
  have "case res of Inr st' \<Rightarrow> inv_size tr0 w' \<and> cs_batch st' = [] | Inl e \<Rightarrow> inv_size tr0 w'"
    by (rule closure_loop_rule [OF run, where I = "\<lambda>pos st w. inv_size tr0 w"
          and J = "\<lambda>st w. inv_size tr0 w" and E = "\<lambda>e w. inv_size tr0 w"])
      (use inv in \<open>auto intro: inv_size_scan inv_size_fetch chunks100_sized\<close>)
  then show ?thesis by (cases res) simp_all
qed

text \<open>
  In any run of \<^verbatim>\<open>do_reply_closure\<close> that ends, normally or not, every lookup of tweets
  names at least one id and at most 100.
\<close>

theorem closure_lookups_at_most_100:
  assumes run: "do_reply_closure en data ex (write_gen_next en) w = Some (res, w')"
  shows "list_all (\<lambda>ids. ids \<noteq> [] \<and> length ids \<le> 100) (lookups (since w w'))"
proof -
  from run obtain res' where loop: "closure_loop en ex (write_gen_next en) 0 (closure_init data) w = Some (res', w')"
    by (auto simp: do_reply_closure_def split: option.splits sum.splits)
  have "inv_size (trace w) w" by (simp add: inv_size_def)
  from inv_size_closure [OF loop this] obtain new
    where "trace w' = trace w @ new" "list_all sized (lookups new)"
    unfolding inv_size_def by blast
  then show ?thesis by (simp add: sized_def [abs_def])
qed

text \<open>The run that looks up tweet 299 is such a run: its one lookup names one id.\<close>

theorem closure_lookups_at_most_100_witness:
  "do_reply_closure quiet_env c6w_data {} (write_gen_next quiet_env) world0 = Some (Inr c6w_data, c6w_world)
   \<and> lookups (since world0 c6w_world) = [[''299'']]
   \<and> list_all (\<lambda>ids. ids \<noteq> [] \<and> length ids \<le> 100) [[''299'']]"
  using closure_lookups_at_most_100 [OF c6w_run] c6w_run
  by (simp add: since_def world0_def c6w_world_def)

lemma send_loop_not_429:
  assumes "send_loop en tw g w = Some (Inr r, w1)"
  shows "status_code r \<noteq> 429"
proof -
  let ?P = "\<lambda>(en::env) (tw::string) (g::string) (w::world) (y::(exn + http_response) \<times> world).
      \<forall>r. fst y = Inr r \<longrightarrow> status_code r \<noteq> 429"
  have "?P en tw g w y" if "send_loop en tw g w = Some y" for y
    using that
  proof (rule send_loop.raw_induct [rotated, where P = ?P])
    fix loop :: "env \<Rightarrow> string \<Rightarrow> string \<Rightarrow> world \<Rightarrow> ((exn + http_response) \<times> world) option"
      and en tw g w y
    assume IH: "\<And>en tw g w y. loop en tw g w = Some y \<Longrightarrow> ?P en tw g w y"
    assume body: "(case e_send en (trace w) tw g of
        Inl e \<Rightarrow> Some (Inl e, log_event (EvSend tw g) w)
      | Inr response \<Rightarrow>
          if status_code response \<noteq> 429
          then Some (Inr response, log_event (EvSend tw g) w)
          else
            (case x_rate_limit_reset response of
               NoHeader \<Rightarrow>
                 Some (Inl (KeyError ''x-rate-limit-reset''), log_event (EvSend tw g) w)
             | NotAFloat \<Rightarrow> Some (Inl ValueError, log_event (EvSend tw g) w)
             | ResetAt resume \<Rightarrow>
                 (case time_time en (log_event (EvSend tw g) w) of
                    (now, w2) \<Rightarrow>
                      if resume - now < 0 then Some (Inl ValueError, w2)
                      else
                        (case e_sleep en (trace w2) of
                           Some e \<Rightarrow> Some (Inl e, log_event (EvSleep (resume - now)) w2)
                         | None \<Rightarrow>
                             loop en tw g
                               (log_event (EvSleep (resume - now)) w2))))) = Some y"
    show "?P en tw g w y"
    proof (cases "\<exists>w1. loop en tw g w1 = Some y")
      case True
      with IH show ?thesis by blast
    next
      case False
      with body show ?thesis
        by (auto split: sum.splits if_splits reset_header.splits option.splits prod.splits)
    qed
  qed
  from this [OF assms] show ?thesis by simp
qed

text \<open>
  A status other than 200 that ends the loop is fatal: the loop ends only on a status other
  than 429, and \<^verbatim>\<open>get_related_tweets\<close> then raises, \<^verbatim>\<open>HTTPError\<close> for 400 to 599 and
  \<^verbatim>\<open>RuntimeError\<close> otherwise, without another request.
\<close>

theorem other_status_is_fatal:
  assumes sent: "send_loop en tw g w = Some (Inr r, w1)"
    and status: "status_code r \<noteq> 200"
  shows "status_code r \<noteq> 429
       \<and> get_related_tweets en tw g w =
           Some (Inl (if 400 \<le> status_code r \<and> status_code r < 600
                      then HTTPError (status_code r) else RuntimeError), w1)"
  using send_loop_not_429 [OF sent] status
  by (simp add: send_loop_result [OF sent] scrape_result_def)

text \<open>A response with status 403 ends the loop and raises \<^verbatim>\<open>HTTPError\<close> after one request.\<close>

theorem other_status_is_fatal_witness:
  "send_loop forbidden_env ''5'' ''g'' world0 =
     Some (Inr \<lparr>status_code = 403, x_rate_limit_reset = NoHeader, body = None\<rparr>,
           log_event (EvSend ''5'' ''g'') world0)
   \<and> get_related_tweets forbidden_env ''5'' ''g'' world0 =
     Some (Inl (HTTPError 403), log_event (EvSend ''5'' ''g'') world0)"
proof -
  have sent: "send_loop forbidden_env ''5'' ''g'' world0 =
     Some (Inr \<lparr>status_code = 403, x_rate_limit_reset = NoHeader, body = None\<rparr>,
           log_event (EvSend ''5'' ''g'') world0)"
    by (simp add: send_loop.simps forbidden_env_def quiet_env_def)
  from other_status_is_fatal [OF sent] sent show ?thesis by simp
qed

text \<open>
  While the endpoint answers 429 with a reset instant that is not past on the clock, and
  no sleep is interrupted, \<^verbatim>\<open>get_related_tweets\<close> stays in its loop: it never returns and
  never raises.
\<close>

theorem rate_limit_never_ends:
  assumes limited: "\<forall>h tw g. \<exists>response resume. e_send en h tw g = Inr response
        \<and> status_code response = 429 \<and> x_rate_limit_reset response = ResetAt resume
        \<and> (\<forall>n. e_time en n \<le> resume)"
    and asleep: "\<forall>h. e_sleep en h = None"
  shows "get_related_tweets en tw g w = None"
proof -
  let ?P = "\<lambda>(en'::env) (tw::string) (g::string) (w::world) (y::(exn + http_response) \<times> world).
      en' \<noteq> en"
  have "?P en' tw g w y" if "send_loop en' tw g w = Some y" for en' y
    using that
  proof (rule send_loop.raw_induct [rotated, where P = ?P])
    fix loop :: "env \<Rightarrow> string \<Rightarrow> string \<Rightarrow> world \<Rightarrow> ((exn + http_response) \<times> world) option"
      and en' tw g w y
    assume IH: "\<And>en' tw g w y. loop en' tw g w = Some y \<Longrightarrow> ?P en' tw g w y"
    assume body: "(case e_send en' (trace w) tw g of
        Inl e \<Rightarrow> Some (Inl e, log_event (EvSend tw g) w)
      | Inr response \<Rightarrow>
          if status_code response \<noteq> 429
          then Some (Inr response, log_event (EvSend tw g) w)
          else
            (case x_rate_limit_reset response of
               NoHeader \<Rightarrow>
                 Some (Inl (KeyError ''x-rate-limit-reset''), log_event (EvSend tw g) w)
             | NotAFloat \<Rightarrow> Some (Inl ValueError, log_event (EvSend tw g) w)
             | ResetAt resume \<Rightarrow>
                 (case time_time en' (log_event (EvSend tw g) w) of
                    (now, w2) \<Rightarrow>
                      if resume - now < 0 then Some (Inl ValueError, w2)
                      else
                        (case e_sleep en' (trace w2) of
                           Some e \<Rightarrow> Some (Inl e, log_event (EvSleep (resume - now)) w2)
                         | None \<Rightarrow>
                             loop en' tw g
                               (log_event (EvSleep (resume - now)) w2))))) = Some y"
    show "en' \<noteq> en"
    proof
      assume eq: "en' = en"
      from limited obtain response resume
        where s: "e_send en (trace w) tw g = Inr response" "status_code response = 429"
            "x_rate_limit_reset response = ResetAt resume"
          and t: "\<forall>n. e_time en n \<le> resume"
        by blast
      from t have "\<not> resume - e_time en (clock_reads (log_event (EvSend tw g) w)) < 0"
        by (simp add: not_less)
      with body eq s asleep obtain w1 where "loop en tw g w1 = Some y"
        by (auto simp: time_time_def split: prod.splits)
      from IH [OF this] show False by simp
    qed
  qed
  then have "send_loop en tw g w = None"
    by (cases "send_loop en tw g w") auto
  then show ?thesis by (simp add: get_related_tweets_def)
qed

text \<open>An endpoint that answers 429 with the reset instant 5 while the clock stands at 0.\<close>

theorem rate_limit_never_ends_witness:
  "e_send always_429_env [] ''5'' ''g'' =
     Inr \<lparr>status_code = 429, x_rate_limit_reset = ResetAt 5, body = None\<rparr>
   \<and> get_related_tweets always_429_env ''5'' ''g'' world0 = None"
proof -
  have limited: "\<forall>h tw g. \<exists>response resume. e_send always_429_env h tw g = Inr response
        \<and> status_code response = 429 \<and> x_rate_limit_reset response = ResetAt resume
        \<and> (\<forall>n. e_time always_429_env n \<le> resume)"
    by (simp add: always_429_env_def quiet_env_def)
  have asleep: "\<forall>h. e_sleep always_429_env h = None"
    by (simp add: always_429_env_def quiet_env_def)
  from rate_limit_never_ends [OF limited asleep] show ?thesis
    by (simp add: always_429_env_def quiet_env_def)
qed

end
